theory Spec2Isabelle
  imports Main "HOL-Library.Word"
begin

section \<open>The todo list of \<open>todo.h\<close> and \<open>todo.c\<close>\<close>

text \<open>
  The C types. An \<open>int\<close> is a 32-bit two's-complement word, read with \<open>sint\<close>; the two
  enumerations \<open>Priority\<close> and \<open>Status\<close> are stored as such words as well, since the
  struct can hold any value of the underlying type (a loaded file is not validated).
  Signed overflow is undefined in ISO C; the model takes the wrap-around that the
  compiled \<open>list->next_id++\<close> performs. A \<open>time_t\<close> is a 64-bit word.
  A C string is the list of characters in front of its terminating NUL, so \<open>strlen\<close> is
  \<open>length\<close>; a \<open>const char*\<close> argument that may be \<open>NULL\<close> is a \<open>string option\<close>.
\<close>

type_synonym c_int = "32 word"
type_synonym time_t = "64 word"
type_synonym byte = "8 word"

definition MAX_TITLE_LENGTH :: nat where
  "MAX_TITLE_LENGTH = 100"

definition MAX_DESC_LENGTH :: nat where
  "MAX_DESC_LENGTH = 500"

definition MAX_TODOS :: nat where
  "MAX_TODOS = 1000"

definition PRIORITY_LOW :: c_int where
  "PRIORITY_LOW = 1"

definition PRIORITY_MEDIUM :: c_int where
  "PRIORITY_MEDIUM = 2"

definition PRIORITY_HIGH :: c_int where
  "PRIORITY_HIGH = 3"

definition STATUS_PENDING :: c_int where
  "STATUS_PENDING = 0"

definition STATUS_COMPLETED :: c_int where
  "STATUS_COMPLETED = 1"

text \<open>
  \<open>struct Todo\<close>. The field \<open>id\<close> is called \<open>todo_id\<close> here (\<open>id\<close> is the identity
  function of HOL). \<open>title\<close> and \<open>description\<close> hold the C string that the fixed-size
  buffer contains.
\<close>

record Todo =
  todo_id :: c_int
  title :: string
  description :: string
  priority :: c_int
  status :: c_int
  created_at :: time_t
  updated_at :: time_t

text \<open>
  \<open>struct TodoList\<close>. The array \<open>todos\<close> together with \<open>count\<close> is represented by the
  list of the live slots \<open>todos[0]\<close> .. \<open>todos[count - 1]\<close>, and \<open>count\<close> is its length.
  No function of the program reads a slot at or beyond \<open>count\<close>: every loop runs over
  \<open>i < count\<close>, and \<open>todo_create\<close> fills slot \<open>count\<close> completely before it increments
  \<open>count\<close>. The list pointer itself is taken to be non-NULL (\<open>main\<close> exits when
  \<open>todo_list_create\<close> fails).
\<close>

record TodoList =
  todos :: "Todo list"
  capacity :: nat
  next_id :: c_int

definition count :: "TodoList \<Rightarrow> nat" where
  "count list = length (todos list)"

text \<open>
  Every early return of the source is one constructor, named after the diagnostic the
  source prints there. The C return value of a failure is always \<open>-1\<close> (\<open>c_ret\<close>).
  In the words of the specification, \<open>Title_too_long\<close> and \<open>Description_too_long\<close> are
  its validation error, \<open>Not_found\<close> its not-found, and \<open>Invalid_or_full\<close> (one message
  in the source for a NULL title and for a full list) is its capacity error whenever a
  title is given.
\<close>

datatype error =
    Alloc_failed
  | Invalid_or_full
  | Title_too_long
  | Description_too_long
  | Not_found
  | Backup_failed
  | Open_failed
  | Header_write_failed
  | Todos_write_failed
  | Header_read_failed
  | Invalid_count
  | Todos_read_failed

definition c_ret :: "error + c_int \<Rightarrow> c_int" where
  "c_ret r = (case r of Inl e \<Rightarrow> - 1 | Inr v \<Rightarrow> v)"

text \<open>
  \<open>todo_list_create\<close>: the two arguments say whether the first and the second \<open>malloc\<close>
  succeed.
\<close>

definition todo_list_create :: "bool \<Rightarrow> bool \<Rightarrow> error + TodoList" where
  "todo_list_create malloc_list malloc_todos =
     (if \<not> malloc_list then Inl Alloc_failed
      else if \<not> malloc_todos then Inl Alloc_failed
      else Inr \<lparr>todos = [], capacity = MAX_TODOS, next_id = 1\<rparr>)"

text \<open>
  \<open>strncpy(buf, src, n - 1); buf[n - 1] = '\0';\<close> for a buffer of \<open>n\<close> bytes: the C string
  left in the buffer consists of the first \<open>n - 1\<close> characters of \<open>src\<close>.
\<close>

definition strncpy_terminated :: "nat \<Rightarrow> string \<Rightarrow> string" where
  "strncpy_terminated n src = take (n - 1) src"

definition too_long :: "nat \<Rightarrow> string option \<Rightarrow> bool" where
  "too_long n s = (case s of None \<Rightarrow> False | Some str \<Rightarrow> n \<le> length str)"

text \<open>\<open>todo_create\<close>; \<open>now\<close> is the value of \<open>time(NULL)\<close>.\<close>

definition todo_create ::
  "TodoList \<Rightarrow> string option \<Rightarrow> string option \<Rightarrow> c_int \<Rightarrow> time_t \<Rightarrow> (error + c_int) \<times> TodoList"
where
  "todo_create list title_arg description_arg priority_arg now =
     (case title_arg of
        None \<Rightarrow> (Inl Invalid_or_full, list)
      | Some t \<Rightarrow>
          if capacity list \<le> count list then (Inl Invalid_or_full, list)
          else if MAX_TITLE_LENGTH \<le> length t then (Inl Title_too_long, list)
          else if too_long MAX_DESC_LENGTH description_arg then (Inl Description_too_long, list)
          else
            let new_todo =
              \<lparr>todo_id = next_id list,
               title = strncpy_terminated MAX_TITLE_LENGTH t,
               description =
                 (case description_arg of
                    Some d \<Rightarrow> strncpy_terminated MAX_DESC_LENGTH d
                  | None \<Rightarrow> []),
               priority = priority_arg,
               status = STATUS_PENDING,
               created_at = now,
               updated_at = now\<rparr>
            in (Inr (todo_id new_todo),
                list\<lparr>todos := todos list @ [new_todo], next_id := next_id list + 1\<rparr>))"

text \<open>
  The search loop of \<open>todo_find_by_id\<close> and of \<open>todo_delete\<close>, started at index \<open>i\<close>.
  The result is the index of the first slot with the requested ID (the source returns
  the address of that slot), \<open>None\<close> for \<open>NULL\<close> and for \<open>index == -1\<close>.
\<close>

function find_loop :: "Todo list \<Rightarrow> c_int \<Rightarrow> nat \<Rightarrow> nat option" where
  "find_loop ts ident i =
     (if i < length ts
      then (if todo_id (ts ! i) = ident then Some i else find_loop ts ident (Suc i))
      else None)"
  by pat_completeness auto
termination
  by (relation "measure (\<lambda>(ts, ident, i). length ts - i)") auto

declare find_loop.simps [simp del]

definition todo_find_by_id :: "TodoList \<Rightarrow> c_int \<Rightarrow> nat option" where
  "todo_find_by_id list ident = find_loop (todos list) ident 0"

definition valid_priority :: "c_int \<Rightarrow> bool" where
  "valid_priority p = (sint PRIORITY_LOW \<le> sint p \<and> sint p \<le> sint PRIORITY_HIGH)"

text \<open>
  \<open>todo_update\<close>. The source works on the slot in place, field by field, and returns
  from the middle: \<open>todo1\<close> is the slot after the title step, which is what the list
  holds when the description check fails.
\<close>

definition todo_update ::
  "TodoList \<Rightarrow> c_int \<Rightarrow> string option \<Rightarrow> string option \<Rightarrow> c_int \<Rightarrow> time_t \<Rightarrow> (error + c_int) \<times> TodoList"
where
  "todo_update list ident title_arg description_arg priority_arg now =
     (case todo_find_by_id list ident of
        None \<Rightarrow> (Inl Not_found, list)
      | Some k \<Rightarrow>
          if too_long MAX_TITLE_LENGTH title_arg then (Inl Title_too_long, list)
          else
            let todo0 = todos list ! k;
                todo1 =
                  (case title_arg of
                     Some t \<Rightarrow> todo0\<lparr>title := strncpy_terminated MAX_TITLE_LENGTH t\<rparr>
                   | None \<Rightarrow> todo0)
            in
              if too_long MAX_DESC_LENGTH description_arg
              then (Inl Description_too_long, list\<lparr>todos := (todos list)[k := todo1]\<rparr>)
              else
                let todo2 =
                      (case description_arg of
                         Some d \<Rightarrow> todo1\<lparr>description := strncpy_terminated MAX_DESC_LENGTH d\<rparr>
                       | None \<Rightarrow> todo1);
                    todo3 =
                      (if valid_priority priority_arg
                       then todo2\<lparr>priority := priority_arg\<rparr>
                       else todo2);
                    todo4 = todo3\<lparr>updated_at := now\<rparr>
                in (Inr 0, list\<lparr>todos := (todos list)[k := todo4]\<rparr>))"

text \<open>
  The second loop of \<open>todo_delete\<close>:
  \<open>for (i = index; i < count - 1; i++) todos[i] = todos[i + 1];\<close>
\<close>

function shift_loop :: "Todo list \<Rightarrow> nat \<Rightarrow> Todo list" where
  "shift_loop ts i =
     (if int i < int (length ts) - 1
      then shift_loop (ts[i := ts ! (i + 1)]) (i + 1)
      else ts)"
  by pat_completeness auto
termination
  by (relation "measure (\<lambda>(ts, i). length ts - i)") auto

declare shift_loop.simps [simp del]

text \<open>\<open>todo_delete\<close>; \<open>count--\<close> drops the last live slot.\<close>

definition todo_delete :: "TodoList \<Rightarrow> c_int \<Rightarrow> (error + c_int) \<times> TodoList" where
  "todo_delete list ident =
     (case find_loop (todos list) ident 0 of
        None \<Rightarrow> (Inl Not_found, list)
      | Some index \<Rightarrow>
          (Inr 0, list\<lparr>todos := take (count list - 1) (shift_loop (todos list) index)\<rparr>))"

definition todo_complete :: "TodoList \<Rightarrow> c_int \<Rightarrow> time_t \<Rightarrow> (error + c_int) \<times> TodoList" where
  "todo_complete list ident now =
     (case todo_find_by_id list ident of
        None \<Rightarrow> (Inl Not_found, list)
      | Some k \<Rightarrow>
          if status (todos list ! k) = STATUS_COMPLETED then (Inr 0, list)
          else (Inr 0,
                list\<lparr>todos := (todos list)
                  [k := (todos list ! k)\<lparr>status := STATUS_COMPLETED, updated_at := now\<rparr>]\<rparr>))"

definition todo_mark_pending :: "TodoList \<Rightarrow> c_int \<Rightarrow> time_t \<Rightarrow> (error + c_int) \<times> TodoList" where
  "todo_mark_pending list ident now =
     (case todo_find_by_id list ident of
        None \<Rightarrow> (Inl Not_found, list)
      | Some k \<Rightarrow>
          if status (todos list ! k) = STATUS_PENDING then (Inr 0, list)
          else (Inr 0,
                list\<lparr>todos := (todos list)
                  [k := (todos list ! k)\<lparr>status := STATUS_PENDING, updated_at := now\<rparr>]\<rparr>))"

section \<open>Persistence: \<open>file_io.h\<close> and \<open>file_io.c\<close>\<close>

text \<open>
  The file system as far as \<open>file_io.c\<close> observes it. \<open>files fs p = Some bytes\<close> says
  that \<open>fopen(p, "r")\<close> succeeds and that the file holds \<open>bytes\<close>; \<open>can_write fs p\<close>
  says that \<open>fopen(p, "wb")\<close> succeeds; the device refuses the bytes with which a file
  would grow beyond \<open>quota fs\<close> bytes; \<open>bufsiz fs\<close> is the size of the buffer that the C
  library gives to a stream. Directories are not part of this state:
  \<open>ensure_data_directory\<close> only creates the directory \<open>data\<close>, and \<open>save_todos_to_file\<close>
  uses its result for a warning and for nothing else, so \<open>can_write\<close> describes the
  paths as they are after that step.
\<close>

record file_system =
  files :: "string \<Rightarrow> byte list option"
  can_write :: "string \<Rightarrow> bool"
  quota :: nat
  bufsiz :: nat

definition DEFAULT_FILENAME :: string where
  "DEFAULT_FILENAME = ''data/todos.dat''"

definition file_exists :: "file_system \<Rightarrow> string option \<Rightarrow> bool" where
  "file_exists fs filename =
     (case filename of
        None \<Rightarrow> False
      | Some f \<Rightarrow> (case files fs f of Some bytes \<Rightarrow> True | None \<Rightarrow> False))"

text \<open>
  A stream that is open for writing: its path and the bytes that \<open>fwrite\<close> has accepted
  and that are still in the buffer of the stream, not yet in the file.
\<close>

type_synonym stream = "string \<times> byte list"

text \<open>\<open>fopen(p, "wb")\<close>: the file is created or truncated; \<open>None\<close> is the NULL stream.\<close>

definition fopen_wb :: "string \<Rightarrow> file_system \<Rightarrow> (stream \<times> file_system) option" where
  "fopen_wb p fs =
     (if can_write fs p then Some ((p, []), fs\<lparr>files := (files fs)(p \<mapsto> [])\<rparr>) else None)"

text \<open>
  The buffer is written out: the bytes that the device takes are appended to the file;
  the result is their number.
\<close>

definition flush_buffer :: "stream \<Rightarrow> file_system \<Rightarrow> nat \<times> file_system" where
  "flush_buffer st fs =
     (let old = (case files fs (fst st) of Some bytes \<Rightarrow> bytes | None \<Rightarrow> []);
          written = take (quota fs - length old) (snd st)
      in (length written, fs\<lparr>files := (files fs)(fst st \<mapsto> old @ written)\<rparr>))"

text \<open>
  \<open>fwrite(buf, sz, n, stream)\<close> on a fully buffered stream. As long as the buffer is not
  full the bytes only go into the buffer and the call reports all \<open>n\<close> items, whatever
  the device would do with them. Once the buffer has reached \<open>bufsiz\<close> bytes it is
  written out, and the call reports the complete items of \<open>buf\<close> that have reached
  the file.
\<close>

definition fwrite ::
  "byte list \<Rightarrow> nat \<Rightarrow> nat \<Rightarrow> stream \<Rightarrow> file_system \<Rightarrow> nat \<times> stream \<times> file_system"
where
  "fwrite buf sz n st fs =
     (let data = take (sz * n) buf;
          pending = snd st @ data
      in if length pending < bufsiz fs
         then (length data div sz, (fst st, pending), fs)
         else (let flushed = flush_buffer (fst st, pending) fs
               in ((fst flushed - length (snd st)) div sz, (fst st, []), snd flushed)))"

text \<open>
  \<open>fclose\<close> on such a stream writes out what is left in the buffer; its result is 0, or
  \<open>EOF\<close> when the device has refused bytes. \<open>file_io.c\<close> never looks at this result.
\<close>

definition fclose :: "stream \<Rightarrow> file_system \<Rightarrow> c_int \<times> file_system" where
  "fclose st fs =
     (if fst (flush_buffer st fs) = length (snd st) then 0 else - 1, snd (flush_buffer st fs))"

text \<open>
  \<open>fread(buf, sz, n, stream)\<close> on the bytes not yet read: the bytes stored into
  \<open>buf\<close>, the number of complete items among them, and the rest of the stream.
\<close>

definition fread :: "nat \<Rightarrow> nat \<Rightarrow> byte list \<Rightarrow> (byte list \<times> nat) \<times> byte list" where
  "fread sz n stream =
     (let got = take (sz * n) stream
      in ((got, length got div sz), drop (sz * n) stream))"

subsection \<open>The object representation written by \<open>fwrite\<close>\<close>

text \<open>
  \<open>fwrite\<close> and \<open>fread\<close> copy the bytes of the objects. The layout is that of the
  declaration of \<open>Todo\<close> in \<open>todo.h\<close> under the LP64 little-endian ABI of the gcc build
  of the Makefile: \<open>int\<close> and the two enumerations take 4 bytes, \<open>time_t\<close> 8 bytes
  aligned to 8, so that 4 bytes of padding follow \<open>status\<close>:
  \<open>id\<close> at offset 0, \<open>title\<close> at 4, \<open>description\<close> at 104, \<open>priority\<close> at 604,
  \<open>status\<close> at 608, \<open>created_at\<close> at 616, \<open>updated_at\<close> at 624, 632 bytes in all.
  Bytes of a buffer behind the terminating NUL, and the padding, are written as 0.
\<close>

definition sizeof_int :: nat where
  "sizeof_int = 4"

definition sizeof_Todo :: nat where
  "sizeof_Todo = 632"

text \<open>The \<open>n\<close> bytes of an integer object, least significant byte first, and the
  integer whose bytes are given.\<close>

definition le_bytes :: "nat \<Rightarrow> 'a::len word \<Rightarrow> byte list" where
  "le_bytes n w = map (\<lambda>i. ucast (drop_bit (8 * i) w)) [0..<n]"

primrec le_word :: "byte list \<Rightarrow> 'a::len word" where
  "le_word [] = 0"
| "le_word (b # bs) = or (ucast b) (push_bit 8 (le_word bs))"

definition enc_int :: "c_int \<Rightarrow> byte list" where
  "enc_int w = le_bytes sizeof_int w"

definition dec_int :: "byte list \<Rightarrow> c_int" where
  "dec_int bs = le_word bs"

definition enc_time :: "time_t \<Rightarrow> byte list" where
  "enc_time w = le_bytes 8 w"

definition dec_time :: "byte list \<Rightarrow> time_t" where
  "dec_time bs = le_word bs"

definition byte_of_char :: "char \<Rightarrow> byte" where
  "byte_of_char c = of_char c"

definition char_of_byte :: "byte \<Rightarrow> char" where
  "char_of_byte b = char_of (unat b)"

text \<open>A \<open>char\<close> array of \<open>n\<close> bytes holding the C string \<open>s\<close>, and the C string in such an
  array (the model stops at the end of the array when there is no NUL in it).\<close>

definition enc_chars :: "nat \<Rightarrow> string \<Rightarrow> byte list" where
  "enc_chars n s = take n (map byte_of_char s @ replicate n 0)"

definition dec_chars :: "byte list \<Rightarrow> string" where
  "dec_chars bs = map char_of_byte (takeWhile (\<lambda>b. b \<noteq> 0) bs)"

definition enc_todo :: "Todo \<Rightarrow> byte list" where
  "enc_todo t =
     enc_int (todo_id t) @ enc_chars MAX_TITLE_LENGTH (title t) @
     enc_chars MAX_DESC_LENGTH (description t) @ enc_int (priority t) @
     enc_int (status t) @ replicate 4 0 @ enc_time (created_at t) @ enc_time (updated_at t)"

definition dec_todo :: "byte list \<Rightarrow> Todo" where
  "dec_todo bs =
     \<lparr>todo_id = dec_int (take 4 bs),
      title = dec_chars (take MAX_TITLE_LENGTH (drop 4 bs)),
      description = dec_chars (take MAX_DESC_LENGTH (drop 104 bs)),
      priority = dec_int (take 4 (drop 604 bs)),
      status = dec_int (take 4 (drop 608 bs)),
      created_at = dec_time (take 8 (drop 616 bs)),
      updated_at = dec_time (take 8 (drop 624 bs))\<rparr>"

definition enc_todos :: "Todo list \<Rightarrow> byte list" where
  "enc_todos ts = concat (map enc_todo ts)"

text \<open>The first \<open>n\<close> elements of the array of \<open>Todo\<close> whose bytes are \<open>bs\<close>.\<close>

primrec dec_todos :: "nat \<Rightarrow> byte list \<Rightarrow> Todo list" where
  "dec_todos 0 bs = []"
| "dec_todos (Suc n) bs = dec_todo (take sizeof_Todo bs) # dec_todos n (drop sizeof_Todo bs)"

text \<open>
  The live slots after \<open>fread\<close> has stored the bytes \<open>got\<close> at the start of the array
  and \<open>count\<close> has not been changed (the failure path of the load): the bytes of a
  last, partly read item lie over the old bytes of its slot.
\<close>

definition overwrite_todos :: "byte list \<Rightarrow> Todo list \<Rightarrow> Todo list" where
  "overwrite_todos got ts =
     dec_todos (length ts) (take (sizeof_Todo * length ts) (got @ drop (length got) (enc_todos ts)))"

subsection \<open>Backup, save and load\<close>

text \<open>
  The copy loop of \<open>create_backup\<close> with the \<open>fclose\<close> that follows on either way out:
  \<open>while ((bytes = fread(buffer, 1, 4096, source)) > 0) if (fwrite(...) != bytes) return -1;\<close>
  where \<open>source\<close> is what is still unread.
\<close>

function copy_loop :: "byte list \<Rightarrow> stream \<Rightarrow> file_system \<Rightarrow> (error + c_int) \<times> file_system" where
  "copy_loop source dest fs =
     (if 0 < length (take 4096 source)
      then (if fst (fwrite (take 4096 source) 1 (length (take 4096 source)) dest fs)
                 \<noteq> length (take 4096 source)
            then (Inl Backup_failed,
                  snd (fclose
                    (fst (snd (fwrite (take 4096 source) 1 (length (take 4096 source)) dest fs)))
                    (snd (snd (fwrite (take 4096 source) 1 (length (take 4096 source)) dest fs)))))
            else copy_loop (drop 4096 source)
                   (fst (snd (fwrite (take 4096 source) 1 (length (take 4096 source)) dest fs)))
                   (snd (snd (fwrite (take 4096 source) 1 (length (take 4096 source)) dest fs))))
      else (Inr 0, snd (fclose dest fs)))"
  by pat_completeness auto
termination
  by (relation "measure (\<lambda>(source, dest, fs). length source)") auto

declare copy_loop.simps [simp del]

text \<open>
  \<open>create_backup\<close>. \<open>snprintf\<close> cuts the backup name to 255 characters. The source is
  read after the destination has been truncated, which matters when the two names
  coincide.
\<close>

definition create_backup :: "string option \<Rightarrow> file_system \<Rightarrow> (error + c_int) \<times> file_system" where
  "create_backup filename fs =
     (case filename of
        None \<Rightarrow> (Inl Backup_failed, fs)
      | Some f \<Rightarrow>
          if \<not> file_exists fs (Some f) then (Inl Backup_failed, fs)
          else
            let backup_filename = take 255 (f @ ''.backup'')
            in (case files fs f of
                  None \<Rightarrow> (Inl Backup_failed, fs)
                | Some bytes \<Rightarrow>
                    (case fopen_wb backup_filename fs of
                       None \<Rightarrow> (Inl Backup_failed, fs)
                     | Some (dest, fs1) \<Rightarrow>
                         copy_loop (case files fs1 f of Some source \<Rightarrow> source | None \<Rightarrow> [])
                           dest fs1)))"

definition file_to_use :: "string option \<Rightarrow> string" where
  "file_to_use filename = (case filename of Some f \<Rightarrow> f | None \<Rightarrow> DEFAULT_FILENAME)"

text \<open>
  \<open>save_todos_to_file\<close>. Every way out behind the \<open>fopen\<close> closes the stream, and the
  result of that \<open>fclose\<close> is dropped: the function returns 0 when the three calls of
  \<open>fwrite\<close> have reported their items.
\<close>

definition save_todos_to_file ::
  "TodoList \<Rightarrow> string option \<Rightarrow> file_system \<Rightarrow> (error + c_int) \<times> file_system"
where
  "save_todos_to_file list filename fs =
     (let fs1 =
            (if file_exists fs (Some (file_to_use filename))
             then snd (create_backup (Some (file_to_use filename)) fs)
             else fs)
      in case fopen_wb (file_to_use filename) fs1 of
           None \<Rightarrow> (Inl Open_failed, fs1)
         | Some (file, fs2) \<Rightarrow>
             (case fwrite (enc_int (of_nat (count list))) sizeof_int 1 file fs2 of
                (n1, file1, fs3) \<Rightarrow>
                  if n1 \<noteq> 1 then (Inl Header_write_failed, snd (fclose file1 fs3))
                  else
                    (case fwrite (enc_int (next_id list)) sizeof_int 1 file1 fs3 of
                       (n2, file2, fs4) \<Rightarrow>
                         if n2 \<noteq> 1 then (Inl Header_write_failed, snd (fclose file2 fs4))
                         else if 0 < count list
                         then
                           (case fwrite (enc_todos (todos list)) sizeof_Todo (count list)
                                   file2 fs4 of
                              (n3, file3, fs5) \<Rightarrow>
                                if n3 \<noteq> count list
                                then (Inl Todos_write_failed, snd (fclose file3 fs5))
                                else (Inr 0, snd (fclose file3 fs5)))
                         else (Inr 0, snd (fclose file2 fs4)))))"

text \<open>
  \<open>load_todos_from_file\<close>. The file system is only read. On success \<open>count\<close> becomes
  \<open>saved_count\<close>, so the live slots are the items read.
\<close>

definition load_todos_from_file ::
  "TodoList \<Rightarrow> string option \<Rightarrow> file_system \<Rightarrow> (error + c_int) \<times> TodoList"
where
  "load_todos_from_file list filename fs =
     (if \<not> file_exists fs (Some (file_to_use filename)) then (Inr 0, list)
      else
        (case files fs (file_to_use filename) of
           None \<Rightarrow> (Inl Open_failed, list)
         | Some stream0 \<Rightarrow>
             (case fread sizeof_int 1 stream0 of
                ((b1, n1), stream1) \<Rightarrow>
                  if n1 \<noteq> 1 then (Inl Header_read_failed, list)
                  else
                    (case fread sizeof_int 1 stream1 of
                       ((b2, n2), stream2) \<Rightarrow>
                         if n2 \<noteq> 1 then (Inl Header_read_failed, list)
                         else
                           let saved_count = dec_int b1;
                               saved_next_id = dec_int b2
                           in
                             if sint saved_count < 0 \<or> int MAX_TODOS < sint saved_count
                             then (Inl Invalid_count, list)
                             else if 0 < sint saved_count
                             then
                               (case fread sizeof_Todo (nat (sint saved_count)) stream2 of
                                  ((b3, n3), stream3) \<Rightarrow>
                                    if n3 \<noteq> nat (sint saved_count)
                                    then (Inl Todos_read_failed,
                                          list\<lparr>todos := overwrite_todos b3 (todos list)\<rparr>)
                                    else (Inr 0,
                                          list\<lparr>todos := dec_todos (nat (sint saved_count)) b3,
                                               next_id := saved_next_id\<rparr>))
                             else (Inr 0, list\<lparr>todos := [], next_id := saved_next_id\<rparr>)))))"

section \<open>Notions used to state the properties\<close>

text \<open>A record fits the layout when its two strings are C strings that leave room for
  the terminator in their buffers.\<close>

definition fits_layout :: "Todo \<Rightarrow> bool" where
  "fits_layout t =
     (length (title t) < MAX_TITLE_LENGTH \<and> CHR 0x00 \<notin> set (title t) \<and>
      length (description t) < MAX_DESC_LENGTH \<and> CHR 0x00 \<notin> set (description t))"

text \<open>
  The invariant of the data model: the count does not exceed the capacity, the IDs in
  the list are pairwise distinct, and the next ID is greater than each of them.
\<close>

definition store_invariant :: "TodoList \<Rightarrow> bool" where
  "store_invariant list =
     (count list \<le> capacity list \<and> distinct (map todo_id (todos list)) \<and>
      (\<forall>t \<in> set (todos list). sint (todo_id t) < sint (next_id list)))"

text \<open>Sequences of calls of \<open>todo_create\<close> and \<open>todo_delete\<close>; \<open>run_ops\<close> collects the IDs
  that the successful calls of \<open>todo_create\<close> return, in order.\<close>

datatype op =
    Create "string option" "string option" c_int time_t
  | Delete c_int

fun run_ops :: "op list \<Rightarrow> TodoList \<Rightarrow> c_int list \<times> TodoList" where
  "run_ops [] list = ([], list)"
| "run_ops (Create t d p now # ops) list =
     (case todo_create list t d p now of
        (Inr ident, list1) \<Rightarrow> (ident # fst (run_ops ops list1), snd (run_ops ops list1))
      | (Inl e, list1) \<Rightarrow> run_ops ops list1)"
| "run_ops (Delete ident # ops) list = run_ops ops (snd (todo_delete list ident))"

definition strictly_increasing :: "c_int list \<Rightarrow> bool" where
  "strictly_increasing ids = sorted_wrt (\<lambda>a b. sint a < sint b) ids"

definition below_next_id :: "c_int list \<Rightarrow> TodoList \<Rightarrow> bool" where
  "below_next_id ids list = (\<forall>i \<in> set ids. sint i < sint (next_id list))"

text \<open>\<open>n\<close> times: create a record, then delete the record with ID \<open>k\<close>, \<open>k + 1\<close>, ...\<close>

fun churn :: "c_int \<Rightarrow> nat \<Rightarrow> op list" where
  "churn k 0 = []"
| "churn k (Suc n) = Create (Some ''task'') None PRIORITY_LOW 0 # Delete k # churn (k + 1) n"

section \<open>Facts about the loops\<close>

lemma find_loop_Some:
  "find_loop ts ident i = Some k \<Longrightarrow>
     i \<le> k \<and> k < length ts \<and> todo_id (ts ! k) = ident \<and>
     (\<forall>j. i \<le> j \<and> j < k \<longrightarrow> todo_id (ts ! j) \<noteq> ident)"
proof (induction ts ident i rule: find_loop.induct)
  case (1 ts ident i)
  show ?case
  proof (cases "i < length ts \<and> todo_id (ts ! i) \<noteq> ident")
    case True
    with "1.prems" have "find_loop ts ident (Suc i) = Some k"
      by (simp add: find_loop.simps [of ts ident i])
    with "1.IH" True have IH: "Suc i \<le> k \<and> k < length ts \<and> todo_id (ts ! k) = ident \<and>
        (\<forall>j. Suc i \<le> j \<and> j < k \<longrightarrow> todo_id (ts ! j) \<noteq> ident)"
      by simp
    have "todo_id (ts ! j) \<noteq> ident" if "i \<le> j" "j < k" for j
      using that IH True by (cases "j = i") auto
    with IH show ?thesis by auto
  next
    case False
    with "1.prems" show ?thesis
      by (auto simp: find_loop.simps [of ts ident i] split: if_splits)
  qed
qed

lemma find_loop_None:
  "find_loop ts ident i = None \<Longrightarrow> j < length ts \<Longrightarrow> i \<le> j \<Longrightarrow> todo_id (ts ! j) \<noteq> ident"
proof (induction ts ident i rule: find_loop.induct)
  case (1 ts ident i)
  from "1.prems" have i: "i < length ts" by simp
  with "1.prems" have ne: "todo_id (ts ! i) \<noteq> ident"
    and rest: "find_loop ts ident (Suc i) = None"
    by (auto simp: find_loop.simps [of ts ident i] split: if_splits)
  show ?case
  proof (cases "j = i")
    case True
    with ne show ?thesis by simp
  next
    case False
    with "1.prems" have "Suc i \<le> j" by simp
    with "1.IH" [OF i ne rest "1.prems"(2)] show ?thesis .
  qed
qed

lemma find_loop_complete:
  "(\<forall>j. i \<le> j \<and> j < length ts \<longrightarrow> todo_id (ts ! j) \<noteq> ident) \<Longrightarrow> find_loop ts ident i = None"
proof (induction ts ident i rule: find_loop.induct)
  case (1 ts ident i)
  show ?case
  proof (cases "i < length ts")
    case True
    with "1.prems" have ne: "todo_id (ts ! i) \<noteq> ident" by simp
    from "1.prems" have "\<forall>j. Suc i \<le> j \<and> j < length ts \<longrightarrow> todo_id (ts ! j) \<noteq> ident"
      by simp
    with "1.IH" [OF True ne] have "find_loop ts ident (Suc i) = None" .
    with True ne show ?thesis by (simp add: find_loop.simps [of ts ident i])
  next
    case False
    then show ?thesis by (simp add: find_loop.simps [of ts ident i])
  qed
qed

lemma find_loop_found:
  assumes "ident \<in> todo_id ` set ts"
  shows "\<exists>k. find_loop ts ident 0 = Some k"
proof (rule ccontr)
  assume "\<not> ?thesis"
  then have none: "find_loop ts ident 0 = None" by simp
  from assms obtain j where "j < length ts" "todo_id (ts ! j) = ident"
    by (auto simp: in_set_conv_nth)
  with find_loop_None [OF none, of j] show False by simp
qed

lemma shift_loop_eq:
  "k < length ts \<Longrightarrow> shift_loop ts k = take k ts @ drop (Suc k) ts @ [last ts]"
proof (induction ts k rule: shift_loop.induct)
  case (1 ts i)
  show ?case
  proof (cases "Suc i < length ts")
    case True
    let ?ts' = "ts[i := ts ! (i + 1)]"
    from True have cond: "int i < int (length ts) - 1" by simp
    have len: "i + 1 < length ?ts'" using True by simp
    have "shift_loop ts i = shift_loop ?ts' (i + 1)"
      using cond by (simp add: shift_loop.simps [of ts i])
    also have "\<dots> = take (i + 1) ?ts' @ drop (Suc (i + 1)) ?ts' @ [last ?ts']"
      using "1.IH" [OF cond len] .
    also have "take (i + 1) ?ts' = take i ts @ [ts ! (i + 1)]"
      using True by (simp add: take_Suc_conv_app_nth)
    also have "drop (Suc (i + 1)) ?ts' = drop (Suc (i + 1)) ts"
      by simp
    also have "last ?ts' = last ts"
      using True by (cases "ts = []") (simp_all add: last_list_update)
    also have "(take i ts @ [ts ! (i + 1)]) @ drop (Suc (i + 1)) ts @ [last ts]
        = take i ts @ drop (Suc i) ts @ [last ts]"
      using True by (simp add: Cons_nth_drop_Suc)
    finally show ?thesis .
  next
    case False
    with "1.prems" have i: "Suc i = length ts" by simp
    then have "\<not> int i < int (length ts) - 1" by simp
    then have "shift_loop ts i = ts" by (simp add: shift_loop.simps [of ts i])
    moreover have "take i ts @ drop (Suc i) ts @ [last ts] = ts"
    proof -
      from i have ne: "ts \<noteq> []" by auto
      from i have "i = length ts - 1" by arith
      then have "take i ts = butlast ts" by (simp only: butlast_conv_take)
      moreover have "drop (Suc i) ts = []" by (simp add: i)
      ultimately show ?thesis using ne by simp
    qed
    ultimately show ?thesis by simp
  qed
qed

lemma take_length_append: "take (length xs) (xs @ ys) = xs"
  by simp

lemma take_shift_loop:
  assumes "k < length ts"
  shows "take (length ts - 1) (shift_loop ts k) = take k ts @ drop (Suc k) ts"
proof -
  let ?kept = "take k ts @ drop (Suc k) ts"
  have len: "length ?kept = length ts - 1"
    using assms by simp
  have "shift_loop ts k = ?kept @ [last ts]"
    by (simp add: shift_loop_eq [OF assms])
  then have "take (length ts - 1) (shift_loop ts k) = take (length ?kept) (?kept @ [last ts])"
    by (simp only: len)
  also have "\<dots> = ?kept"
    by (rule take_length_append)
  finally show ?thesis .
qed

section \<open>Properties of the record store\<close>

lemma find_index_bound:
  "todo_find_by_id list ident = Some k \<Longrightarrow> k < length (todos list)"
  by (auto simp: todo_find_by_id_def dest: find_loop_Some)

text \<open>
  C1 (the update is all-or-nothing on a validation failure) does not hold of
  \<open>todo_update\<close>: the title is written before the description is checked. On the list
  with the single record 1 titled \<open>a\<close>, the call with the new title \<open>b\<close> and a
  description of 500 characters fails with the validation error of the description and
  leaves the record with the title \<open>b\<close>.
\<close>

theorem todo_update_partial_write:
  "todo_update
     \<lparr>todos = [\<lparr>todo_id = 1, title = ''a'', description = ''d'', priority = 2, status = 0,
                created_at = 5, updated_at = 5\<rparr>],
      capacity = MAX_TODOS, next_id = 2\<rparr>
     1 (Some ''b'') (Some (replicate 500 CHR ''x'')) (- 1) 9
   = (Inl Description_too_long,
      \<lparr>todos = [\<lparr>todo_id = 1, title = ''b'', description = ''d'', priority = 2, status = 0,
                 created_at = 5, updated_at = 5\<rparr>],
       capacity = MAX_TODOS, next_id = 2\<rparr>)"
  by (simp add: todo_update_def todo_find_by_id_def find_loop.simps too_long_def
      MAX_TITLE_LENGTH_def MAX_DESC_LENGTH_def strncpy_terminated_def)

text \<open>
  C2 as stated (an empty title is rejected) fails: on the list that \<open>todo_list_create\<close>
  returns, \<open>todo_create\<close> with the empty title returns the ID 1 and adds a record.
\<close>

theorem todo_create_empty_title_counterexample:
  "fst (todo_create \<lparr>todos = [], capacity = MAX_TODOS, next_id = 1\<rparr>
          (Some '''') None PRIORITY_MEDIUM 0) = Inr 1 \<and>
   count (snd (todo_create \<lparr>todos = [], capacity = MAX_TODOS, next_id = 1\<rparr>
          (Some '''') None PRIORITY_MEDIUM 0)) = 1"
  by (simp add: todo_create_def count_def too_long_def MAX_TODOS_def MAX_TITLE_LENGTH_def)

text \<open>
  C2, amended: on a list below its capacity, \<open>todo_create\<close> with an empty title and a
  description that is absent or shorter than \<open>MAX_DESC_LENGTH\<close> succeeds, returns the
  next ID and appends a pending record with the empty title; a title of
  \<open>MAX_TITLE_LENGTH\<close> characters or more is rejected and nothing is added. The title
  is the reason of a rejection in these two cases only: an absent title fails on the
  first check and nothing is added, and with every title shorter than
  \<open>MAX_TITLE_LENGTH\<close>, the empty one included, the call succeeds and appends the record
  with that title, unless the description is too long, which is then the error
  reported.
\<close>

theorem todo_create_empty_title:
  assumes "count list < capacity list"
  shows "(\<not> too_long MAX_DESC_LENGTH d \<longrightarrow>
            todo_create list (Some []) d p now =
              (Inr (next_id list),
               list\<lparr>todos := todos list @
                  [\<lparr>todo_id = next_id list, title = [],
                    description = (case d of Some str \<Rightarrow> str | None \<Rightarrow> []),
                    priority = p, status = STATUS_PENDING,
                    created_at = now, updated_at = now\<rparr>],
                 next_id := next_id list + 1\<rparr>)) \<and>
         (MAX_TITLE_LENGTH \<le> length t \<longrightarrow>
            todo_create list (Some t) d p now = (Inl Title_too_long, list)) \<and>
         todo_create list None d p now = (Inl Invalid_or_full, list) \<and>
         (length t < MAX_TITLE_LENGTH \<and> \<not> too_long MAX_DESC_LENGTH d \<longrightarrow>
            todo_create list (Some t) d p now =
              (Inr (next_id list),
               list\<lparr>todos := todos list @
                  [\<lparr>todo_id = next_id list, title = t,
                    description = (case d of Some str \<Rightarrow> str | None \<Rightarrow> []),
                    priority = p, status = STATUS_PENDING,
                    created_at = now, updated_at = now\<rparr>],
                 next_id := next_id list + 1\<rparr>)) \<and>
         (length t < MAX_TITLE_LENGTH \<and> too_long MAX_DESC_LENGTH d \<longrightarrow>
            todo_create list (Some t) d p now = (Inl Description_too_long, list))"
proof -
  have "strncpy_terminated MAX_DESC_LENGTH str = str"
    if "\<not> too_long MAX_DESC_LENGTH (Some str)" for str
    using that by (simp add: too_long_def strncpy_terminated_def)
  moreover have "strncpy_terminated MAX_TITLE_LENGTH t = t" if "length t < MAX_TITLE_LENGTH"
    using that by (simp add: strncpy_terminated_def)
  ultimately show ?thesis
    using assms
    by (cases d)
      (simp_all add: todo_create_def MAX_TITLE_LENGTH_def strncpy_terminated_def)
qed

theorem todo_create_empty_title_witness:
  "count \<lparr>todos = [], capacity = MAX_TODOS, next_id = 1\<rparr>
     < capacity \<lparr>todos = [], capacity = MAX_TODOS, next_id = 1\<rparr> \<and>
   todo_create \<lparr>todos = [], capacity = MAX_TODOS, next_id = 1\<rparr>
       (Some []) (Some ''soon'') PRIORITY_HIGH 7 =
     (Inr 1,
      \<lparr>todos = [\<lparr>todo_id = 1, title = [], description = ''soon'', priority = PRIORITY_HIGH,
                 status = STATUS_PENDING, created_at = 7, updated_at = 7\<rparr>],
       capacity = MAX_TODOS, next_id = 2\<rparr>) \<and>
   todo_create \<lparr>todos = [], capacity = MAX_TODOS, next_id = 1\<rparr>
       (Some (replicate 100 CHR ''x'')) (Some ''soon'') PRIORITY_HIGH 7 =
     (Inl Title_too_long, \<lparr>todos = [], capacity = MAX_TODOS, next_id = 1\<rparr>) \<and>
   todo_create \<lparr>todos = [], capacity = MAX_TODOS, next_id = 1\<rparr>
       None (Some ''soon'') PRIORITY_HIGH 7 =
     (Inl Invalid_or_full, \<lparr>todos = [], capacity = MAX_TODOS, next_id = 1\<rparr>) \<and>
   todo_create \<lparr>todos = [], capacity = MAX_TODOS, next_id = 1\<rparr>
       (Some ''x'') (Some ''soon'') PRIORITY_HIGH 7 =
     (Inr 1,
      \<lparr>todos = [\<lparr>todo_id = 1, title = ''x'', description = ''soon'', priority = PRIORITY_HIGH,
                 status = STATUS_PENDING, created_at = 7, updated_at = 7\<rparr>],
       capacity = MAX_TODOS, next_id = 2\<rparr>)"
  using todo_create_empty_title
    [of "\<lparr>todos = [], capacity = MAX_TODOS, next_id = 1\<rparr>" "Some ''soon''"
        PRIORITY_HIGH 7 "replicate 100 CHR ''x''"]
    todo_create_empty_title
    [of "\<lparr>todos = [], capacity = MAX_TODOS, next_id = 1\<rparr>" "Some ''soon''"
        PRIORITY_HIGH 7 "''x''"]
  by (simp add: count_def MAX_TODOS_def too_long_def MAX_DESC_LENGTH_def MAX_TITLE_LENGTH_def)

text \<open>
  C5: for a list whose count does not exceed its capacity (the invariant of the store)
  and for valid arguments (a title shorter than \<open>MAX_TITLE_LENGTH\<close>, a description absent
  or shorter than \<open>MAX_DESC_LENGTH\<close>), \<open>todo_create\<close> fails on the full-list check exactly
  when the count equals the capacity, it does not fail in any other way, and the failure
  leaves the list as it was.
\<close>

theorem todo_create_capacity:
  assumes "count list \<le> capacity list"
    and "length t < MAX_TITLE_LENGTH"
    and "\<not> too_long MAX_DESC_LENGTH d"
  shows "(fst (todo_create list (Some t) d p now) = Inl Invalid_or_full
            \<longleftrightarrow> count list = capacity list) \<and>
         (fst (todo_create list (Some t) d p now) = Inl Invalid_or_full
            \<longrightarrow> snd (todo_create list (Some t) d p now) = list) \<and>
         (count list \<noteq> capacity list
            \<longrightarrow> fst (todo_create list (Some t) d p now) = Inr (next_id list))"
  using assms by (auto simp: todo_create_def Let_def)

theorem todo_create_capacity_witness:
  "fst (todo_create
          \<lparr>todos = replicate 1000
             \<lparr>todo_id = 1, title = ''a'', description = [], priority = 2, status = 0,
              created_at = 5, updated_at = 5\<rparr>,
           capacity = MAX_TODOS, next_id = 2\<rparr>
          (Some ''Buy milk'') None PRIORITY_MEDIUM 9) = Inl Invalid_or_full \<and>
   snd (todo_create
          \<lparr>todos = replicate 1000
             \<lparr>todo_id = 1, title = ''a'', description = [], priority = 2, status = 0,
              created_at = 5, updated_at = 5\<rparr>,
           capacity = MAX_TODOS, next_id = 2\<rparr>
          (Some ''Buy milk'') None PRIORITY_MEDIUM 9) =
     \<lparr>todos = replicate 1000
        \<lparr>todo_id = 1, title = ''a'', description = [], priority = 2, status = 0,
         created_at = 5, updated_at = 5\<rparr>,
      capacity = MAX_TODOS, next_id = 2\<rparr>"
  using todo_create_capacity
    [of "\<lparr>todos = replicate 1000
           \<lparr>todo_id = 1, title = ''a'', description = [], priority = 2, status = 0,
            created_at = 5, updated_at = 5\<rparr>,
         capacity = MAX_TODOS, next_id = 2\<rparr>" "''Buy milk''" None PRIORITY_MEDIUM 9]
  by (simp add: count_def MAX_TODOS_def too_long_def MAX_TITLE_LENGTH_def)



text \<open>
  C7 as stated (for every list that holds a record with the ID) fails when the ID
  occurs twice, which neither \<open>load_todos_from_file\<close> nor the wrapping counter
  excludes: on the IDs 10, 20, 20, 30 the call \<open>todo_delete\<close> for 20 returns 0, removes
  the first of the two records, and \<open>todo_find_by_id\<close> for 20 then finds the other one.
\<close>

theorem todo_delete_duplicate_counterexample:
  "fst (todo_delete
     \<lparr>todos = [\<lparr>todo_id = 10, title = ''a'', description = [], priority = 1, status = 0,
                created_at = 5, updated_at = 5\<rparr>,
               \<lparr>todo_id = 20, title = ''b'', description = [], priority = 2, status = 0,
                created_at = 6, updated_at = 6\<rparr>,
               \<lparr>todo_id = 20, title = ''c'', description = [], priority = 3, status = 0,
                created_at = 7, updated_at = 7\<rparr>,
               \<lparr>todo_id = 30, title = ''d'', description = [], priority = 1, status = 0,
                created_at = 8, updated_at = 8\<rparr>],
      capacity = MAX_TODOS, next_id = 31\<rparr> 20) = Inr 0 \<and>
   todo_find_by_id (snd (todo_delete
     \<lparr>todos = [\<lparr>todo_id = 10, title = ''a'', description = [], priority = 1, status = 0,
                created_at = 5, updated_at = 5\<rparr>,
               \<lparr>todo_id = 20, title = ''b'', description = [], priority = 2, status = 0,
                created_at = 6, updated_at = 6\<rparr>,
               \<lparr>todo_id = 20, title = ''c'', description = [], priority = 3, status = 0,
                created_at = 7, updated_at = 7\<rparr>,
               \<lparr>todo_id = 30, title = ''d'', description = [], priority = 1, status = 0,
                created_at = 8, updated_at = 8\<rparr>],
      capacity = MAX_TODOS, next_id = 31\<rparr> 20)) 20 = Some 1"
  by (simp add: todo_delete_def todo_find_by_id_def count_def find_loop.simps shift_loop.simps)

text \<open>
  C7, amended: in a list whose IDs are pairwise distinct and which holds a record with
  the ID, \<open>todo_delete\<close> returns 0, \<open>todo_find_by_id\<close> for the same ID then finds
  nothing, and the list after the call is the old list without the slot \<open>k\<close> of that
  record: the records in front of \<open>k\<close> stay, those behind \<open>k\<close> move down by one, all
  unchanged and in their order.
\<close>

theorem todo_delete_then_find:
  assumes "ident \<in> todo_id ` set (todos list)"
    and "distinct (map todo_id (todos list))"
  shows "\<exists>k. todo_find_by_id list ident = Some k \<and>
           fst (todo_delete list ident) = Inr 0 \<and>
           todo_find_by_id (snd (todo_delete list ident)) ident = None \<and>
           todos (snd (todo_delete list ident)) = take k (todos list) @ drop (Suc k) (todos list) \<and>
           count (snd (todo_delete list ident)) + 1 = count list \<and>
           next_id (snd (todo_delete list ident)) = next_id list"
proof -
  let ?ts = "todos list"
  from find_loop_found [OF assms(1)] obtain k where found: "find_loop ?ts ident 0 = Some k"
    by blast
  from find_loop_Some [OF found] have k: "k < length ?ts" and idk: "todo_id (?ts ! k) = ident"
    by simp_all
  let ?rest = "take k ?ts @ drop (Suc k) ?ts"
  have after: "todo_delete list ident = (Inr 0, list\<lparr>todos := ?rest\<rparr>)"
    using found take_shift_loop [OF k] by (simp add: todo_delete_def count_def)
  have "?ts = take k ?ts @ ?ts ! k # drop (Suc k) ?ts"
    using k by (simp add: id_take_nth_drop [symmetric])
  then have "map todo_id ?ts = map todo_id (take k ?ts) @ ident # map todo_id (drop (Suc k) ?ts)"
    using idk by (metis list.simps(9) map_append)
  with assms(2) have "ident \<notin> set (map todo_id (take k ?ts)) \<and>
      ident \<notin> set (map todo_id (drop (Suc k) ?ts))"
    by (metis distinct_append distinct.simps(2) disjoint_iff list.set_intros(1))
  then have absent: "\<forall>j. 0 \<le> j \<and> j < length ?rest \<longrightarrow> todo_id (?rest ! j) \<noteq> ident"
    by (metis image_eqI list.set_map map_append nth_mem set_append UnE)
  have "find_loop ?rest ident 0 = None"
    by (rule find_loop_complete) (use absent in blast)
  then have "todo_find_by_id (snd (todo_delete list ident)) ident = None"
    by (simp add: after todo_find_by_id_def)
  moreover have "length ?rest + 1 = length ?ts"
    using k by simp
  ultimately show ?thesis
    using found after by (auto simp: todo_find_by_id_def count_def simp del: length_append)
qed

theorem todo_delete_then_find_witness:
  "todo_delete
     \<lparr>todos = [\<lparr>todo_id = 1, title = ''Buy milk'', description = [], priority = 2,
                status = 0, created_at = 5, updated_at = 5\<rparr>,
               \<lparr>todo_id = 2, title = ''Call dentist'', description = ''Follow-up'',
                priority = 3, status = 0, created_at = 6, updated_at = 6\<rparr>],
      capacity = MAX_TODOS, next_id = 3\<rparr> 1 =
     (Inr 0,
      \<lparr>todos = [\<lparr>todo_id = 2, title = ''Call dentist'', description = ''Follow-up'',
                 priority = 3, status = 0, created_at = 6, updated_at = 6\<rparr>],
       capacity = MAX_TODOS, next_id = 3\<rparr>) \<and>
   todo_find_by_id
     (snd (todo_delete
       \<lparr>todos = [\<lparr>todo_id = 1, title = ''Buy milk'', description = [], priority = 2,
                  status = 0, created_at = 5, updated_at = 5\<rparr>,
                 \<lparr>todo_id = 2, title = ''Call dentist'', description = ''Follow-up'',
                  priority = 3, status = 0, created_at = 6, updated_at = 6\<rparr>],
        capacity = MAX_TODOS, next_id = 3\<rparr> 1)) 1 = None"
proof -
  let ?list = "\<lparr>todos = [\<lparr>todo_id = 1, title = ''Buy milk'', description = [], priority = 2,
                status = 0, created_at = 5, updated_at = 5\<rparr>,
               \<lparr>todo_id = 2, title = ''Call dentist'', description = ''Follow-up'',
                priority = 3, status = 0, created_at = 6, updated_at = 6\<rparr>],
      capacity = MAX_TODOS, next_id = (3::c_int)\<rparr>"
  have "1 \<in> todo_id ` set (todos ?list)" and "distinct (map todo_id (todos ?list))"
    by simp_all
  from todo_delete_then_find [OF this] obtain k where
    k: "todo_find_by_id ?list 1 = Some k"
    and none: "todo_find_by_id (snd (todo_delete ?list 1)) 1 = None"
    and ts: "todos (snd (todo_delete ?list 1)) = take k (todos ?list) @ drop (Suc k) (todos ?list)"
    and ok: "fst (todo_delete ?list 1) = Inr 0"
    by blast
  have "todo_find_by_id ?list 1 = Some 0"
    by (simp add: todo_find_by_id_def find_loop.simps)
  with k have "k = 0" by simp
  moreover have "snd (todo_delete ?list 1) = ?list\<lparr>todos := todos (snd (todo_delete ?list 1))\<rparr>"
    by (simp add: todo_delete_def todo_find_by_id_def find_loop.simps)
  ultimately show ?thesis
    using none ts ok by (simp add: prod_eq_iff)
qed





section \<open>The IDs assigned over a sequence of calls\<close>

lemma todo_create_Inr:
  assumes "todo_create list t d p now = (Inr ident, list1)"
  shows "ident = next_id list \<and> next_id list1 = next_id list + 1"
  using assms
  by (auto simp: todo_create_def Let_def split: option.splits if_splits)

lemma todo_create_Inl:
  assumes "todo_create list t d p now = (Inl e, list1)"
  shows "list1 = list"
  using assms
  by (auto simp: todo_create_def Let_def split: option.splits if_splits)

lemma todo_delete_next_id: "next_id (snd (todo_delete list ident)) = next_id list"
  by (simp add: todo_delete_def split: option.splits)

lemma consecutive_Cons:
  "(k::c_int) # map (\<lambda>j. k + 1 + of_nat j) [0..<n] = map (\<lambda>j. k + of_nat j) [0..<Suc n]"
proof -
  have "map (\<lambda>j. k + of_nat j) [0..<Suc n] = (k + of_nat 0) # map (\<lambda>j. k + of_nat (Suc j)) [0..<n]"
    by (simp only: map_upt_Suc)
  then show ?thesis
    by (simp add: add.assoc)
qed

text \<open>The IDs assigned are consecutive words, starting at the next ID of the list.\<close>

lemma run_ops_consecutive:
  "run_ops ops list = (ids, list') \<Longrightarrow>
     ids = map (\<lambda>j. next_id list + of_nat j) [0..<length ids] \<and>
     next_id list' = next_id list + of_nat (length ids)"
proof (induction ops arbitrary: list ids list')
  case Nil
  then show ?case by simp
next
  case (Cons a ops)
  show ?case
  proof (cases a)
    case (Create t d p now)
    obtain r list1 where c: "todo_create list t d p now = (r, list1)"
      by (cases "todo_create list t d p now")
    obtain ids1 list2 where r: "run_ops ops list1 = (ids1, list2)"
      by (cases "run_ops ops list1")
    from Cons.IH [OF r] have IH: "ids1 = map (\<lambda>j. next_id list1 + of_nat j) [0..<length ids1]"
      "next_id list2 = next_id list1 + of_nat (length ids1)"
      by simp_all
    show ?thesis
    proof (cases r)
      case (Inl e)
      with c have "list1 = list" by (simp add: todo_create_Inl)
      moreover from Cons.prems Create c Inl r have "ids = ids1" "list' = list2" by simp_all
      ultimately show ?thesis using IH by simp
    next
      case (Inr ident)
      with c have i: "ident = next_id list" and n: "next_id list1 = next_id list + 1"
        using todo_create_Inr by blast+
      from Cons.prems Create c Inr r have ids: "ids = ident # ids1" and l: "list' = list2"
        by simp_all
      have "ids = next_id list # map (\<lambda>j. next_id list + 1 + of_nat j) [0..<length ids1]"
        using ids i IH(1) n by simp
      then have "ids = map (\<lambda>j. next_id list + of_nat j) [0..<Suc (length ids1)]"
        by (simp only: consecutive_Cons)
      moreover have "length ids = Suc (length ids1)"
        using ids by simp
      moreover have "next_id list' = next_id list + of_nat (Suc (length ids1))"
        using l IH(2) n by (simp add: add.assoc)
      ultimately show ?thesis by simp
    qed
  next
    case (Delete ident)
    with Cons.prems have "run_ops ops (snd (todo_delete list ident)) = (ids, list')"
      by simp
    from Cons.IH [OF this] show ?thesis
      by (simp add: todo_delete_next_id)
  qed
qed

lemma sint_one_plus:
  assumes "j < 2147483647"
  shows "sint (1 + of_nat j :: c_int) = 1 + int j"
proof -
  have "(1 + of_nat j :: c_int) = of_int (1 + int j)"
    by simp
  moreover have "sint (of_int (1 + int j) :: c_int) = 1 + int j"
    using assms by (simp only: sint_sbintrunc') (simp add: signed_take_bit_int_eq_self)
  ultimately show ?thesis by simp
qed

text \<open>What \<open>churn\<close> does to a list without records.\<close>

lemma create_delete_empty:
  assumes "todos list = []" and "0 < capacity list"
  shows "todo_create list (Some ''task'') None PRIORITY_LOW 0 =
           (Inr (next_id list),
            list\<lparr>todos := [\<lparr>todo_id = next_id list, title = ''task'', description = [],
                              priority = PRIORITY_LOW, status = STATUS_PENDING,
                              created_at = 0, updated_at = 0\<rparr>],
                 next_id := next_id list + 1\<rparr>)"
    and "snd (todo_delete
           (list\<lparr>todos := [\<lparr>todo_id = next_id list, title = ''task'', description = [],
                              priority = PRIORITY_LOW, status = STATUS_PENDING,
                              created_at = 0, updated_at = 0\<rparr>],
                 next_id := next_id list + 1\<rparr>) (next_id list)) =
           list\<lparr>next_id := next_id list + 1\<rparr>"
  using assms
  by (simp_all add: todo_create_def todo_delete_def count_def too_long_def
      MAX_TITLE_LENGTH_def strncpy_terminated_def find_loop.simps)

lemma run_ops_churn:
  "todos list = [] \<Longrightarrow> 0 < capacity list \<Longrightarrow> 0 < n \<Longrightarrow>
     hd (fst (run_ops (churn (next_id list) n) list)) = next_id list \<and>
     fst (run_ops (churn (next_id list) n) list) \<noteq> [] \<and>
     next_id (snd (run_ops (churn (next_id list) n) list)) = next_id list + of_nat n"
proof (induction n arbitrary: list)
  case 0
  then show ?case by simp
next
  case (Suc n)
  let ?list1 = "list\<lparr>next_id := next_id list + 1\<rparr>"
  have step: "run_ops (churn (next_id list) (Suc n)) list =
      (next_id list # fst (run_ops (churn (next_id ?list1) n) ?list1),
       snd (run_ops (churn (next_id ?list1) n) ?list1))"
    using create_delete_empty [OF Suc.prems(1,2)] by simp
  show ?case
  proof (cases "n = 0")
    case True
    with step show ?thesis by simp
  next
    case False
    then have "0 < n" by simp
    with Suc.IH [of ?list1] Suc.prems have
      "next_id (snd (run_ops (churn (next_id ?list1) n) ?list1)) = next_id ?list1 + of_nat n"
      by simp
    with step show ?thesis by (simp add: add.assoc)
  qed
qed

text \<open>
  C3 as stated (for every sequence) fails where the 32-bit counter wraps. From the list
  that \<open>todo_list_create\<close> returns, create a record and delete it again, 2147483647
  times: the first ID assigned is 1, the last is 2147483647, and the next-ID counter
  has then wrapped to the least \<open>int\<close>, which is not greater than the IDs assigned.
\<close>

theorem next_id_wraps_counterexample:
  "\<not> below_next_id
       (fst (run_ops (churn 1 2147483647) \<lparr>todos = [], capacity = MAX_TODOS, next_id = 1\<rparr>))
       (snd (run_ops (churn 1 2147483647) \<lparr>todos = [], capacity = MAX_TODOS, next_id = 1\<rparr>))"
proof -
  let ?list = "\<lparr>todos = [], capacity = MAX_TODOS, next_id = (1::c_int)\<rparr>"
  let ?run = "run_ops (churn 1 2147483647) ?list"
  have "todos ?list = []" and "0 < capacity ?list" and "0 < (2147483647::nat)"
    by (simp_all add: MAX_TODOS_def)
  from run_ops_churn [OF this]
  have first: "hd (fst ?run) = 1" and ne: "fst ?run \<noteq> []"
    and nxt: "next_id (snd ?run) = 1 + of_nat 2147483647"
    by simp_all
  from first ne have "1 \<in> set (fst ?run)"
    by (metis hd_in_set)
  moreover have "\<not> sint (1::c_int) < sint (next_id (snd ?run))"
    by (simp only: nxt) simp
  ultimately show ?thesis
    unfolding below_next_id_def by blast
qed

text \<open>
  C3, amended: from the list that \<open>todo_list_create\<close> returns, over every sequence of
  calls of \<open>todo_create\<close> and \<open>todo_delete\<close> in which fewer than 2147483647 creates
  succeed, the IDs returned are 1, 2, 3, ... in this order (so strictly increasing and
  without repetition, whatever is deleted in between), and the next-ID counter is
  greater than each of them.
\<close>

theorem ids_strictly_increasing:
  assumes "todo_list_create malloc_list malloc_todos = Inr list"
    and "run_ops ops list = (ids, list')"
    and "length ids < 2147483647"
  shows "strictly_increasing ids \<and> distinct ids \<and> below_next_id ids list' \<and>
         map sint ids = map int [1..<Suc (length ids)] \<and>
         sint (next_id list') = 1 + int (length ids)"
proof -
  from assms(1) have start: "next_id list = 1"
    by (auto simp: todo_list_create_def split: if_splits)
  let ?n = "length ids"
  from run_ops_consecutive [OF assms(2)] start
  have ids: "ids = map (\<lambda>j. 1 + of_nat j) [0..<?n]" and nxt: "next_id list' = 1 + of_nat ?n"
    by simp_all
  have s: "sint (1 + of_nat j :: c_int) = 1 + int j" if "j \<le> ?n" for j
    using that assms(3) by (intro sint_one_plus) simp
  have "map sint ids = map sint (map (\<lambda>j. 1 + of_nat j :: c_int) [0..<?n])"
    using ids by simp
  also have "\<dots> = map (\<lambda>j. 1 + int j) [0..<?n]"
    using s by simp
  also have "\<dots> = map int (map Suc [0..<?n])"
    by simp
  also have "map Suc [0..<?n] = [1..<Suc ?n]"
    by (simp add: map_Suc_upt)
  finally have vals: "map sint ids = map int [1..<Suc ?n]" .
  have inc: "sorted_wrt (<) (map sint ids)"
  proof -
    have "sorted_wrt (<) [1..<Suc ?n]"
      by (rule sorted_wrt_upt)
    then have "sorted_wrt (\<lambda>a b. int a < int b) [1..<Suc ?n]"
      by (rule sorted_wrt_mono_rel [rotated]) simp
    then show ?thesis
      by (simp only: vals sorted_wrt_map)
  qed
  then have "strictly_increasing ids"
    by (simp add: strictly_increasing_def sorted_wrt_map)
  moreover from inc have "distinct (map sint ids)"
    by (simp add: strict_sorted_iff)
  then have "distinct ids"
    by (simp add: distinct_map)
  moreover have top: "sint (next_id list') = 1 + int ?n"
    using s [of ?n] nxt by simp
  moreover have "below_next_id ids list'"
  proof -
    have "sint i < 1 + int ?n" if "i \<in> set ids" for i
    proof -
      from that have "sint i \<in> set (map sint ids)" by simp
      then show ?thesis by (simp only: vals) auto
    qed
    then show ?thesis by (simp add: below_next_id_def top)
  qed
  ultimately show ?thesis using vals by simp
qed

theorem ids_strictly_increasing_witness:
  "todo_list_create True True = Inr \<lparr>todos = [], capacity = MAX_TODOS, next_id = 1\<rparr> \<and>
   fst (run_ops [Create (Some ''Buy milk'') None PRIORITY_MEDIUM 5,
                 Create (Some ''Call dentist'') (Some ''Follow-up'') PRIORITY_HIGH 6,
                 Delete 1,
                 Create (Some ''Pay rent'') None PRIORITY_LOW 7]
          \<lparr>todos = [], capacity = MAX_TODOS, next_id = 1\<rparr>) = [1, 2, 3] \<and>
   strictly_increasing [1, 2, 3] \<and> distinct [1, 2, 3 :: c_int] \<and>
   sint (next_id (snd (run_ops [Create (Some ''Buy milk'') None PRIORITY_MEDIUM 5,
                 Create (Some ''Call dentist'') (Some ''Follow-up'') PRIORITY_HIGH 6,
                 Delete 1,
                 Create (Some ''Pay rent'') None PRIORITY_LOW 7]
          \<lparr>todos = [], capacity = MAX_TODOS, next_id = 1\<rparr>))) = 4"
proof -
  let ?list = "\<lparr>todos = [], capacity = MAX_TODOS, next_id = (1::c_int)\<rparr>"
  let ?ops = "[Create (Some ''Buy milk'') None PRIORITY_MEDIUM 5,
                 Create (Some ''Call dentist'') (Some ''Follow-up'') PRIORITY_HIGH 6,
                 Delete 1,
                 Create (Some ''Pay rent'') None PRIORITY_LOW 7]"
  have start: "todo_list_create True True = Inr ?list"
    by (simp add: todo_list_create_def)
  have ids: "fst (run_ops ?ops ?list) = [1, 2, 3]"
    by (simp add: todo_create_def todo_delete_def count_def too_long_def MAX_TODOS_def
        MAX_TITLE_LENGTH_def MAX_DESC_LENGTH_def strncpy_terminated_def find_loop.simps
        shift_loop.simps)
  have run: "run_ops ?ops ?list = ([1, 2, 3], snd (run_ops ?ops ?list))"
    using ids by (simp add: prod_eq_iff)
  have len: "length [1, 2, 3 :: c_int] < 2147483647"
    by simp
  from ids_strictly_increasing [OF start run len] start ids show ?thesis
    by simp
qed

section \<open>The invariant of the store\<close>

text \<open>
  \<open>todo_list_create\<close> establishes the invariant and every operation of \<open>todo.c\<close> keeps
  it, \<open>todo_create\<close> as long as the next ID is below the greatest \<open>int\<close>.
\<close>

lemma sint_succ:
  assumes "sint (w :: c_int) < 2147483647"
  shows "sint (w + 1) = sint w + 1"
proof -
  have "- 2147483648 \<le> sint w"
    using sint_ge [of w] by simp
  with assms have "signed_take_bit 31 (sint w + 1) = sint w + 1"
    by (simp add: signed_take_bit_int_eq_self)
  then show ?thesis
    by (simp add: sint_word_add)
qed

lemma todo_list_create_invariant:
  "todo_list_create malloc_list malloc_todos = Inr list \<Longrightarrow> store_invariant list"
  by (auto simp: todo_list_create_def store_invariant_def count_def split: if_splits)

lemma todo_create_invariant:
  assumes "store_invariant list" and "sint (next_id list) < 2147483647"
  shows "store_invariant (snd (todo_create list t d p now))"
proof (cases "fst (todo_create list t d p now)")
  case (Inl e)
  then have "snd (todo_create list t d p now) = list"
    using todo_create_Inl [of list t d p now e "snd (todo_create list t d p now)"]
    by (simp add: prod_eq_iff)
  with assms(1) show ?thesis by simp
next
  case (Inr ident)
  then obtain str where t: "t = Some str" and room: "count list < capacity list"
    by (auto simp: todo_create_def Let_def split: option.splits if_splits)
  define new where "new =
      \<lparr>todo_id = next_id list, title = strncpy_terminated MAX_TITLE_LENGTH str,
       description = (case d of Some x \<Rightarrow> strncpy_terminated MAX_DESC_LENGTH x | None \<Rightarrow> []),
       priority = p, status = STATUS_PENDING, created_at = now, updated_at = now\<rparr>"
  have new: "todo_id new = next_id list"
    by (simp add: new_def)
  have after: "snd (todo_create list t d p now) =
      list\<lparr>todos := todos list @ [new], next_id := next_id list + 1\<rparr>"
    using Inr t by (auto simp: todo_create_def Let_def new_def split: if_splits)
  from assms(1) have old: "\<forall>u \<in> set (todos list). sint (todo_id u) < sint (next_id list)"
    and dist: "distinct (map todo_id (todos list))"
    by (simp_all add: store_invariant_def)
  from old have "next_id list \<notin> todo_id ` set (todos list)"
    by auto
  with dist new have "distinct (map todo_id (todos list @ [new]))"
    by simp
  moreover have "\<forall>u \<in> set (todos list @ [new]). sint (todo_id u) < sint (next_id list + 1)"
    using old new by (auto simp: sint_succ [OF assms(2)])
  moreover have "count (list\<lparr>todos := todos list @ [new]\<rparr>) \<le> capacity list"
    using room by (simp add: count_def)
  ultimately show ?thesis
    by (simp add: after store_invariant_def count_def)
qed

lemma distinct_append_tl: "distinct (as @ bs) \<Longrightarrow> distinct (as @ tl bs)"
  by (cases bs) auto

lemma distinct_without_slot:
  assumes "distinct (map f xs)"
  shows "distinct (map f (take k xs @ drop (Suc k) xs))"
proof -
  have "map f xs = map f (take k xs) @ map f (drop k xs)"
    by (metis append_take_drop_id map_append)
  with assms have "distinct (map f (take k xs) @ map f (drop k xs))"
    by simp
  then have "distinct (map f (take k xs) @ tl (map f (drop k xs)))"
    by (rule distinct_append_tl)
  moreover have "tl (map f (drop k xs)) = map f (drop (Suc k) xs)"
    by (metis drop_Suc map_tl tl_drop)
  ultimately show ?thesis
    by (simp only: map_append)
qed

lemma todo_delete_invariant:
  assumes "store_invariant list"
  shows "store_invariant (snd (todo_delete list ident))"
proof (cases "find_loop (todos list) ident 0")
  case None
  with assms show ?thesis by (simp add: todo_delete_def)
next
  case (Some k)
  from find_loop_Some [OF Some] have k: "k < length (todos list)"
    by simp
  let ?rest = "take k (todos list) @ drop (Suc k) (todos list)"
  have after: "snd (todo_delete list ident) = list\<lparr>todos := ?rest\<rparr>"
    using Some take_shift_loop [OF k] by (simp add: todo_delete_def count_def)
  have "set ?rest \<subseteq> set (todos list)"
    by (auto dest: in_set_takeD in_set_dropD)
  moreover have "length ?rest \<le> length (todos list)"
    by simp
  ultimately show ?thesis
    using assms distinct_without_slot [of todo_id "todos list" k]
    by (auto simp: after store_invariant_def count_def simp del: length_append set_append)
qed

lemma same_ids_invariant:
  assumes "store_invariant list" and "k < length (todos list)"
    and "todo_id new = todo_id (todos list ! k)"
  shows "store_invariant (list\<lparr>todos := (todos list)[k := new]\<rparr>)"
proof -
  have ids: "map todo_id ((todos list)[k := new]) = map todo_id (todos list)"
    using assms(2,3) by (metis list_update_id map_update nth_map)
  then have img: "todo_id ` set ((todos list)[k := new]) = todo_id ` set (todos list)"
    by (metis list.set_map)
  have "sint (todo_id u) < sint (next_id list)" if "u \<in> set ((todos list)[k := new])" for u
  proof -
    from that have "todo_id u \<in> todo_id ` set ((todos list)[k := new])"
      by (rule imageI)
    then have "todo_id u \<in> todo_id ` set (todos list)"
      by (simp only: img)
    then obtain v where "v \<in> set (todos list)" and "todo_id v = todo_id u"
      by auto
    with assms(1) show ?thesis
      by (metis store_invariant_def)
  qed
  then show ?thesis
    using assms(1) ids by (simp add: store_invariant_def count_def)
qed

lemma todo_update_invariant:
  assumes "store_invariant list"
  shows "store_invariant (snd (todo_update list ident t d p now))"
proof (cases "todo_find_by_id list ident")
  case None
  with assms show ?thesis by (simp add: todo_update_def)
next
  case (Some k)
  then have k: "k < length (todos list)"
    by (rule find_index_bound)
  show ?thesis
    using Some assms same_ids_invariant [OF assms k]
    by (cases t; cases d) (simp_all add: todo_update_def Let_def too_long_def)
qed

lemma set_status_invariant:
  assumes "store_invariant list"
  shows "store_invariant (snd (todo_complete list ident now))"
    and "store_invariant (snd (todo_mark_pending list ident now))"
proof -
  show "store_invariant (snd (todo_complete list ident now))"
  proof (cases "todo_find_by_id list ident")
    case None
    with assms show ?thesis by (simp add: todo_complete_def)
  next
    case (Some k)
    then have "k < length (todos list)" by (rule find_index_bound)
    from same_ids_invariant [OF assms this] Some assms show ?thesis
      by (simp add: todo_complete_def)
  qed
  show "store_invariant (snd (todo_mark_pending list ident now))"
  proof (cases "todo_find_by_id list ident")
    case None
    with assms show ?thesis by (simp add: todo_mark_pending_def)
  next
    case (Some k)
    then have "k < length (todos list)" by (rule find_index_bound)
    from same_ids_invariant [OF assms this] Some assms show ?thesis
      by (simp add: todo_mark_pending_def)
  qed
qed

section \<open>The object representation can be read back\<close>

lemma le_bytes_Suc:
  "le_bytes (Suc n) (w :: 'a::len word) = ucast w # le_bytes n (drop_bit 8 w)"
proof -
  have "map (\<lambda>i. ucast (drop_bit (8 * i) w) :: byte) [0..<Suc n]
      = ucast (drop_bit (8 * 0) w) # map (\<lambda>i. ucast (drop_bit (8 * Suc i) w)) [0..<n]"
    by (simp only: map_upt_Suc)
  then show ?thesis
    by (simp add: le_bytes_def drop_bit_drop_bit add.commute)
qed

lemma le_word_le_bytes:
  "(le_word (le_bytes n w) :: 'a::len word) = take_bit (8 * n) w"
proof (induction n arbitrary: w)
  case 0
  then show ?case by (simp add: le_bytes_def)
next
  case (Suc n)
  have "(le_word (le_bytes (Suc n) w) :: 'a word)
      = or (ucast (ucast w :: byte)) (push_bit 8 (take_bit (8 * n) (drop_bit 8 w)))"
    by (simp add: le_bytes_Suc Suc.IH)
  also have "\<dots> = take_bit (8 * Suc n) w"
    by (rule bit_word_eqI) (auto simp: bit_simps)
  finally show ?case .
qed

lemma length_enc_int [simp]: "length (enc_int w) = 4"
  by (simp add: enc_int_def sizeof_int_def le_bytes_def)

lemma length_enc_time [simp]: "length (enc_time w) = 8"
  by (simp add: enc_time_def le_bytes_def)

lemma dec_enc_int: "dec_int (enc_int w) = w"
  by (simp add: dec_int_def enc_int_def sizeof_int_def le_word_le_bytes take_bit_word_eq_self)

lemma dec_enc_time: "dec_time (enc_time w) = w"
  by (simp add: dec_time_def enc_time_def le_word_le_bytes take_bit_word_eq_self)

lemma char_of_byte_of_char: "char_of_byte (byte_of_char c) = c"
proof -
  have "(of_char c :: byte) = of_nat (of_char c)"
    by (simp add: of_nat_of_char)
  then have "unat (of_char c :: byte) = take_bit 8 (of_char c :: nat)"
    by (simp add: unsigned_of_nat)
  also have "\<dots> = of_char c"
    by (simp add: take_bit_eq_mod)
  finally show ?thesis
    by (simp add: char_of_byte_def byte_of_char_def)
qed

lemma byte_of_char_nonzero:
  assumes "c \<noteq> CHR 0x00"
  shows "byte_of_char c \<noteq> 0"
proof
  assume "byte_of_char c = 0"
  then have "char_of_byte (byte_of_char c) = char_of_byte 0"
    by simp
  then have "c = CHR 0x00"
    by (simp add: char_of_byte_of_char) (simp add: char_of_byte_def char_of_def)
  with assms show False by simp
qed

lemma length_enc_chars [simp]: "length (enc_chars n s) = n"
  by (simp add: enc_chars_def)

lemma dec_enc_chars:
  assumes "length s < n" and "CHR 0x00 \<notin> set s"
  shows "dec_chars (enc_chars n s) = s"
proof -
  let ?bs = "map byte_of_char s"
  from assms(1) obtain m where m: "n - length s = Suc m"
    by (cases "n - length s") simp_all
  have "enc_chars n s = ?bs @ replicate (n - length s) 0"
    using assms(1) by (simp add: enc_chars_def)
  then have enc: "enc_chars n s = ?bs @ 0 # replicate m 0"
    by (simp add: m)
  have nz: "b \<noteq> 0" if "b \<in> set ?bs" for b
  proof -
    from that obtain c where c: "c \<in> set s" and b: "b = byte_of_char c"
      by auto
    from c assms(2) have "c \<noteq> CHR 0x00"
      by blast
    then show ?thesis
      unfolding b by (rule byte_of_char_nonzero)
  qed
  have "takeWhile (\<lambda>b. b \<noteq> 0) (?bs @ 0 # replicate m 0)
      = ?bs @ takeWhile (\<lambda>b. b \<noteq> 0) (0 # replicate m 0)"
    by (rule takeWhile_append2) (rule nz)
  also have "\<dots> = ?bs"
    by simp
  finally have "dec_chars (enc_chars n s) = map char_of_byte ?bs"
    by (simp only: dec_chars_def enc)
  also have "\<dots> = map (\<lambda>c. c) s"
    unfolding map_map by (rule map_cong) (simp_all add: char_of_byte_of_char)
  finally show ?thesis
    by simp
qed

lemma length_enc_todo [simp]: "length (enc_todo t) = 632"
  by (simp add: enc_todo_def MAX_TITLE_LENGTH_def MAX_DESC_LENGTH_def)

lemma dec_enc_todo:
  assumes "fits_layout t"
  shows "dec_todo (enc_todo t) = t"
proof -
  from assms have ti: "dec_chars (enc_chars MAX_TITLE_LENGTH (title t)) = title t"
    and de: "dec_chars (enc_chars MAX_DESC_LENGTH (description t)) = description t"
    by (simp_all add: fits_layout_def dec_enc_chars)
  have len: "length (enc_chars MAX_TITLE_LENGTH (title t)) = 100"
    "length (enc_chars MAX_DESC_LENGTH (description t)) = 500"
    by (simp_all add: MAX_TITLE_LENGTH_def MAX_DESC_LENGTH_def)
  have "dec_todo (enc_todo t) =
      \<lparr>todo_id = dec_int (enc_int (todo_id t)),
       title = dec_chars (enc_chars MAX_TITLE_LENGTH (title t)),
       description = dec_chars (enc_chars MAX_DESC_LENGTH (description t)),
       priority = dec_int (enc_int (priority t)),
       status = dec_int (enc_int (status t)),
       created_at = dec_time (enc_time (created_at t)),
       updated_at = dec_time (enc_time (updated_at t))\<rparr>"
    unfolding dec_todo_def enc_todo_def
    using len by (simp add: MAX_TITLE_LENGTH_def MAX_DESC_LENGTH_def)
  then show ?thesis
    by (simp add: ti de dec_enc_int dec_enc_time)
qed

lemma length_enc_todos: "length (enc_todos ts) = sizeof_Todo * length ts"
  by (induction ts) (simp_all add: enc_todos_def sizeof_Todo_def)

lemma dec_enc_todos:
  assumes "\<forall>t \<in> set ts. fits_layout t"
  shows "dec_todos (length ts) (enc_todos ts) = ts"
  using assms
proof (induction ts)
  case Nil
  then show ?case by simp
next
  case (Cons t ts)
  have "enc_todos (t # ts) = enc_todo t @ enc_todos ts"
    by (simp add: enc_todos_def)
  moreover have "take sizeof_Todo (enc_todo t @ enc_todos ts) = enc_todo t"
    "drop sizeof_Todo (enc_todo t @ enc_todos ts) = enc_todos ts"
    by (simp_all add: sizeof_Todo_def)
  ultimately show ?case
    using Cons by (simp add: dec_enc_todo)
qed

section \<open>Saving and loading\<close>

lemma flush_buffer_frame:
  "can_write (snd (flush_buffer st fs)) = can_write fs"
  "quota (snd (flush_buffer st fs)) = quota fs"
  "bufsiz (snd (flush_buffer st fs)) = bufsiz fs"
  by (simp_all add: flush_buffer_def Let_def)

lemma fwrite_frame:
  "can_write (snd (snd (fwrite buf sz n st fs))) = can_write fs"
  "quota (snd (snd (fwrite buf sz n st fs))) = quota fs"
  "bufsiz (snd (snd (fwrite buf sz n st fs))) = bufsiz fs"
  by (simp_all add: fwrite_def Let_def flush_buffer_frame)

lemma fclose_frame:
  "can_write (snd (fclose st fs)) = can_write fs"
  "quota (snd (fclose st fs)) = quota fs"
  "bufsiz (snd (fclose st fs)) = bufsiz fs"
  by (simp_all add: fclose_def flush_buffer_frame)

text \<open>
  When the device has room for everything, each \<open>fwrite\<close> reports all its items, and
  the file together with the buffer holds what has been written to the stream.
\<close>

lemma fwrite_fits:
  assumes "fwrite buf sz n st fs = (m, st', fs')"
    and "files fs (fst st) = Some old"
    and "length old + length (snd st) + sz * n \<le> quota fs"
    and "length buf = sz * n" and "0 < sz"
  shows "m = n \<and> fst st' = fst st \<and> quota fs' = quota fs \<and>
         (\<exists>old'. files fs' (fst st) = Some old' \<and> old' @ snd st' = old @ snd st @ buf)"
proof (cases "length (snd st @ buf) < bufsiz fs")
  case True
  with assms(1,4) have "m = length buf div sz" and "st' = (fst st, snd st @ buf)" and "fs' = fs"
    by (simp_all add: fwrite_def Let_def)
  with assms(2,4,5) show ?thesis
    by simp
next
  case False
  let ?pending = "snd st @ buf"
  from assms(3,4) have room: "length ?pending \<le> quota fs - length old"
    by simp
  then have all: "take (quota fs - length old) ?pending = ?pending"
    by simp
  have fl: "flush_buffer (fst st, ?pending) fs =
      (length ?pending, fs\<lparr>files := (files fs)(fst st \<mapsto> old @ ?pending)\<rparr>)"
    using assms(2) all by (simp add: flush_buffer_def Let_def del: take_append)
  from False assms(1,4) fl have "m = (length ?pending - length (snd st)) div sz"
    and "st' = (fst st, [])"
    and "fs' = fs\<lparr>files := (files fs)(fst st \<mapsto> old @ ?pending)\<rparr>"
    by (simp_all add: fwrite_def Let_def del: take_append)
  with assms(4,5) show ?thesis
    by simp
qed

lemma fclose_fits:
  assumes "files fs (fst st) = Some old" and "length old + length (snd st) \<le> quota fs"
  shows "files (snd (fclose st fs)) (fst st) = Some (old @ snd st)"
  using assms by (simp add: fclose_def flush_buffer_def Let_def)

text \<open>
  As long as the buffer does not fill, \<open>fwrite\<close> reports all its items without a look at
  the device.
\<close>

lemma fwrite_buffered:
  assumes "length (snd st) + sz * n < bufsiz fs" and "length buf = sz * n" and "0 < sz"
  shows "fwrite buf sz n st fs = (n, (fst st, snd st @ buf), fs)"
  using assms by (simp add: fwrite_def Let_def)

lemma fopen_wb_Some:
  assumes "fopen_wb p fs = Some (st, fs2)"
  shows "st = (p, [])" and "files fs2 p = Some []" and "can_write fs2 = can_write fs"
    and "quota fs2 = quota fs" and "bufsiz fs2 = bufsiz fs"
  using assms by (auto simp: fopen_wb_def split: if_splits)

lemma copy_loop_frame:
  "can_write (snd (copy_loop source dest fs)) = can_write fs \<and>
   quota (snd (copy_loop source dest fs)) = quota fs \<and>
   bufsiz (snd (copy_loop source dest fs)) = bufsiz fs"
proof (induction source dest fs rule: copy_loop.induct)
  case (1 source dest fs)
  let ?w = "fwrite (take 4096 source) 1 (length (take 4096 source)) dest fs"
  show ?case
  proof (cases "0 < length (take 4096 source)")
    case False
    then have "copy_loop source dest fs = (Inr 0, snd (fclose dest fs))"
      by (subst copy_loop.simps) simp
    then show ?thesis by (simp add: fclose_frame)
  next
    case True
    show ?thesis
    proof (cases "fst ?w \<noteq> length (take 4096 source)")
      case stop: True
      with True have "copy_loop source dest fs =
          (Inl Backup_failed, snd (fclose (fst (snd ?w)) (snd (snd ?w))))"
        by (subst copy_loop.simps) simp
      then show ?thesis by (simp add: fclose_frame fwrite_frame)
    next
      case go: False
      with True have "copy_loop source dest fs =
          copy_loop (drop 4096 source) (fst (snd ?w)) (snd (snd ?w))"
        by (subst copy_loop.simps) simp
      with "1.IH" [OF True go] show ?thesis by (simp add: fwrite_frame)
    qed
  qed
qed

lemma create_backup_frame:
  "can_write (snd (create_backup filename fs)) = can_write fs \<and>
   quota (snd (create_backup filename fs)) = quota fs \<and>
   bufsiz (snd (create_backup filename fs)) = bufsiz fs"
  by (auto simp: create_backup_def Let_def copy_loop_frame fopen_wb_def
      split: option.splits if_splits)

text \<open>The three calls of \<open>fwrite\<close> in \<open>save_todos_to_file\<close>, once the stream is open.\<close>

lemma save_unfold:
  assumes "fopen_wb (file_to_use filename)
             (if file_exists fs (Some (file_to_use filename))
              then snd (create_backup (Some (file_to_use filename)) fs) else fs) = Some (file, fs2)"
    and "fwrite (enc_int (of_nat (count list))) sizeof_int 1 file fs2 = (n1, file1, fs3)"
    and "fwrite (enc_int (next_id list)) sizeof_int 1 file1 fs3 = (n2, file2, fs4)"
    and "fwrite (enc_todos (todos list)) sizeof_Todo (count list) file2 fs4 = (n3, file3, fs5)"
  shows "save_todos_to_file list filename fs =
      (if n1 \<noteq> 1 then (Inl Header_write_failed, snd (fclose file1 fs3))
       else if n2 \<noteq> 1 then (Inl Header_write_failed, snd (fclose file2 fs4))
       else if 0 < count list
       then (if n3 \<noteq> count list then (Inl Todos_write_failed, snd (fclose file3 fs5))
             else (Inr 0, snd (fclose file3 fs5)))
       else (Inr 0, snd (fclose file2 fs4)))"
  using assms by (simp add: save_todos_to_file_def Let_def)

text \<open>
  When the file can be opened for writing and the device takes all the bytes, the save
  returns 0 and the file holds the count, the next ID and the records.
\<close>

lemma save_writes:
  assumes "can_write fs (file_to_use filename)"
    and "8 + sizeof_Todo * count list \<le> quota fs"
  shows "fst (save_todos_to_file list filename fs) = Inr 0 \<and>
         files (snd (save_todos_to_file list filename fs)) (file_to_use filename) =
           Some (enc_int (of_nat (count list)) @ enc_int (next_id list) @ enc_todos (todos list))"
proof -
  let ?p = "file_to_use filename"
  let ?fs1 = "if file_exists fs (Some ?p) then snd (create_backup (Some ?p) fs) else fs"
  let ?c = "enc_int (of_nat (count list))"
  let ?i = "enc_int (next_id list)"
  let ?t = "enc_todos (todos list)"
  have fs1: "can_write ?fs1 = can_write fs" "quota ?fs1 = quota fs"
    by (simp_all add: create_backup_frame)
  then obtain strm fs2 where o: "fopen_wb ?p ?fs1 = Some (strm, fs2)"
    using assms(1) by (simp add: fopen_wb_def)
  note f2 = fopen_wb_Some [OF o]
  obtain n1 file1 fs3 where w1: "fwrite ?c sizeof_int 1 strm fs2 = (n1, file1, fs3)"
    by (metis prod_cases3)
  obtain n2 file2 fs4 where w2: "fwrite ?i sizeof_int 1 file1 fs3 = (n2, file2, fs4)"
    by (metis prod_cases3)
  obtain n3 file3 fs5 where w3: "fwrite ?t sizeof_Todo (count list) file2 fs4 = (n3, file3, fs5)"
    by (metis prod_cases3)
  have q: "8 + 632 * length (todos list) \<le> quota fs2"
    using assms(2) f2(4) fs1(2) by (simp add: sizeof_Todo_def count_def)
  have start: "files fs2 (fst strm) = Some []" "snd strm = []" "fst strm = ?p"
    using f2 by simp_all
  from fwrite_fits [OF w1 start(1)] q start(2)
  have r1: "n1 = 1" "fst file1 = ?p" "quota fs3 = quota fs2"
    and "\<exists>old. files fs3 (fst strm) = Some old \<and> old @ snd file1 = [] @ snd strm @ ?c"
    by (simp_all add: sizeof_int_def start(3))
  then obtain old1 where h1: "files fs3 (fst file1) = Some old1" "old1 @ snd file1 = ?c"
    using start by auto
  have "length (old1 @ snd file1) = length ?c"
    by (simp only: h1(2))
  then have l1: "length old1 + length (snd file1) = 4"
    by simp
  from fwrite_fits [OF w2 h1(1)] q l1 r1(3)
  have r2: "n2 = 1" "fst file2 = ?p" "quota fs4 = quota fs2"
    and "\<exists>old. files fs4 (fst file1) = Some old \<and> old @ snd file2 = old1 @ snd file1 @ ?i"
    by (simp_all add: sizeof_int_def r1(2))
  then obtain old2 where h2: "files fs4 (fst file2) = Some old2" "old2 @ snd file2 = ?c @ ?i"
    using h1(2) r1(2) by (metis append.assoc)
  have "length (old2 @ snd file2) = length (?c @ ?i)"
    by (simp only: h2(2))
  then have l2: "length old2 + length (snd file2) = 8"
    by simp
  have done2: "files (snd (fclose file2 fs4)) ?p = Some (?c @ ?i)"
    using fclose_fits [OF h2(1)] l2 q r2(2,3) h2(2) by simp
  show ?thesis
  proof (cases "0 < count list")
    case False
    then have "?t = []"
      by (simp add: count_def enc_todos_def)
    with False done2 r1(1) r2(1) show ?thesis
      by (simp add: save_unfold [OF o w1 w2 w3])
  next
    case True
    from fwrite_fits [OF w3 h2(1)] q l2 r2(3)
    have r3: "n3 = count list" "fst file3 = ?p" "quota fs5 = quota fs2"
      and "\<exists>old. files fs5 (fst file2) = Some old \<and> old @ snd file3 = old2 @ snd file2 @ ?t"
      by (simp_all add: sizeof_Todo_def count_def length_enc_todos r2(2))
    then obtain old3 where h3: "files fs5 (fst file3) = Some old3"
      "old3 @ snd file3 = ?c @ ?i @ ?t"
      using h2(2) r2(2) by (metis append.assoc)
    have "length (old3 @ snd file3) = length (?c @ ?i @ ?t)"
      by (simp only: h3(2))
    then have "length old3 + length (snd file3) = 8 + 632 * length (todos list)"
      by (simp add: length_enc_todos sizeof_Todo_def)
    with fclose_fits [OF h3(1)] q r3(2,3) h3(2)
    have "files (snd (fclose file3 fs5)) ?p = Some (?c @ ?i @ ?t)"
      by simp
    with True r1(1) r2(1) r3(1) show ?thesis
      by (simp add: save_unfold [OF o w1 w2 w3])
  qed
qed

text \<open>
  The dropped result of \<open>fclose\<close>: when everything stays in the buffer, the save returns
  0 whatever the device then takes, and the file holds only the bytes that fit.
\<close>

lemma save_unchecked_fclose:
  assumes "can_write fs (file_to_use filename)"
    and "8 + sizeof_Todo * count list < bufsiz fs"
  shows "fst (save_todos_to_file list filename fs) = Inr 0 \<and>
         files (snd (save_todos_to_file list filename fs)) (file_to_use filename) =
           Some (take (quota fs)
             (enc_int (of_nat (count list)) @ enc_int (next_id list) @ enc_todos (todos list)))"
proof -
  let ?p = "file_to_use filename"
  let ?fs1 = "if file_exists fs (Some ?p) then snd (create_backup (Some ?p) fs) else fs"
  let ?c = "enc_int (of_nat (count list))"
  let ?i = "enc_int (next_id list)"
  let ?t = "enc_todos (todos list)"
  have fs1: "can_write ?fs1 = can_write fs" "quota ?fs1 = quota fs" "bufsiz ?fs1 = bufsiz fs"
    by (simp_all add: create_backup_frame)
  then obtain strm fs2 where o: "fopen_wb ?p ?fs1 = Some (strm, fs2)"
    using assms(1) by (simp add: fopen_wb_def)
  note f2 = fopen_wb_Some [OF o]
  have b: "8 + 632 * length (todos list) < bufsiz fs2"
    using assms(2) f2(5) fs1(3) by (simp add: sizeof_Todo_def count_def)
  have w1: "fwrite ?c sizeof_int 1 strm fs2 = (1, (?p, ?c), fs2)"
    using fwrite_buffered [of strm sizeof_int 1 fs2 ?c] b f2(1)
    by (simp add: sizeof_int_def)
  have w2: "fwrite ?i sizeof_int 1 (?p, ?c) fs2 = (1, (?p, ?c @ ?i), fs2)"
    using fwrite_buffered [of "(?p, ?c)" sizeof_int 1 fs2 ?i] b
    by (simp add: sizeof_int_def)
  have w3: "fwrite ?t sizeof_Todo (count list) (?p, ?c @ ?i) fs2 =
      (count list, (?p, (?c @ ?i) @ ?t), fs2)"
    using fwrite_buffered [of "(?p, ?c @ ?i)" sizeof_Todo "count list" fs2 ?t] b
    by (simp add: sizeof_Todo_def count_def length_enc_todos)
  have cl: "files (snd (fclose (?p, bytes) fs2)) ?p = Some (take (quota fs) bytes)" for bytes
    using f2(2,4) fs1(2) by (simp add: fclose_def flush_buffer_def Let_def)
  show ?thesis
  proof (cases "0 < count list")
    case False
    then have "?t = []"
      by (simp add: count_def enc_todos_def)
    with False cl [of "?c @ ?i"] show ?thesis
      by (simp add: save_unfold [OF o w1 w2 w3])
  next
    case True
    with cl [of "(?c @ ?i) @ ?t"] show ?thesis
      by (simp add: save_unfold [OF o w1 w2 w3])
  qed
qed

lemma sint_of_nat_small:
  assumes "n \<le> 1000"
  shows "sint (of_nat n :: c_int) = int n"
proof -
  have "(of_nat n :: c_int) = of_int (int n)"
    by simp
  moreover have "sint (of_int (int n) :: c_int) = int n"
    using assms by (simp only: sint_sbintrunc') (simp add: signed_take_bit_int_eq_self)
  ultimately show ?thesis by simp
qed

lemma fread_exact:
  assumes "length item = sz * n" and "0 < sz"
  shows "fread sz n (item @ rest) = ((item, n), rest)"
  using assms by (simp add: fread_def Let_def)

text \<open>What the load makes of such a file.\<close>

lemma load_content:
  assumes "files fs (file_to_use filename) =
             Some (enc_int (of_nat (length ts)) @ enc_int nid @ enc_todos ts)"
    and "length ts \<le> MAX_TODOS"
    and "\<forall>t \<in> set ts. fits_layout t"
  shows "load_todos_from_file list filename fs = (Inr 0, list\<lparr>todos := ts, next_id := nid\<rparr>)"
proof -
  let ?n = "of_nat (length ts) :: c_int"
  have ex: "file_exists fs (Some (file_to_use filename))"
    using assms(1) by (simp add: file_exists_def)
  have r1: "fread sizeof_int 1 (enc_int ?n @ enc_int nid @ enc_todos ts)
      = ((enc_int ?n, 1), enc_int nid @ enc_todos ts)"
    by (rule fread_exact) (simp_all add: sizeof_int_def)
  have r2: "fread sizeof_int 1 (enc_int nid @ enc_todos ts) = ((enc_int nid, 1), enc_todos ts)"
    by (rule fread_exact) (simp_all add: sizeof_int_def)
  have r3: "fread sizeof_Todo (length ts) (enc_todos ts) = ((enc_todos ts, length ts), [])"
    using fread_exact [of "enc_todos ts" sizeof_Todo "length ts" "[]"]
    by (simp add: length_enc_todos sizeof_Todo_def)
  have cnt: "sint ?n = int (length ts)"
    using assms(2) by (simp add: sint_of_nat_small MAX_TODOS_def)
  show ?thesis
  proof (cases "ts = []")
    case True
    then show ?thesis
      using assms(1) ex r1 r2 cnt
      by (simp add: load_todos_from_file_def Let_def dec_enc_int)
  next
    case False
    then have pos: "0 < length ts" by simp
    show ?thesis
      using assms(1,2) ex r1 r2 r3 cnt pos dec_enc_todos [OF assms(3)]
      by (simp add: load_todos_from_file_def Let_def dec_enc_int)
  qed
qed

text \<open>
  C4: let the list have at most \<open>MAX_TODOS\<close> records (the capacity of every list that
  \<open>todo_list_create\<close> makes) which all fit the layout, and let the save go through:
  the file can be opened for writing and the device takes the 8 bytes of the header
  and the 632 bytes of each record. Then the save returns 0, the load of the same file
  into a list fresh from \<open>todo_list_create\<close> returns 0, and the loaded list has the
  records of the saved one, field by field and in the same order, the same count and the
  same next ID; it is the saved list itself when that has the capacity \<open>MAX_TODOS\<close>.
\<close>

theorem save_load_round_trip:
  assumes "todo_list_create malloc_list malloc_todos = Inr fresh"
    and "can_write fs (file_to_use filename)"
    and "8 + sizeof_Todo * count list \<le> quota fs"
    and "count list \<le> MAX_TODOS"
    and "\<forall>t \<in> set (todos list). fits_layout t"
  shows "fst (save_todos_to_file list filename fs) = Inr 0 \<and>
         fst (load_todos_from_file fresh filename (snd (save_todos_to_file list filename fs)))
           = Inr 0 \<and>
         todos (snd (load_todos_from_file fresh filename (snd (save_todos_to_file list filename fs))))
           = todos list \<and>
         count (snd (load_todos_from_file fresh filename (snd (save_todos_to_file list filename fs))))
           = count list \<and>
         next_id (snd (load_todos_from_file fresh filename (snd (save_todos_to_file list filename fs))))
           = next_id list \<and>
         (capacity list = MAX_TODOS \<longrightarrow>
            snd (load_todos_from_file fresh filename (snd (save_todos_to_file list filename fs)))
              = list)"
proof -
  let ?fs' = "snd (save_todos_to_file list filename fs)"
  from save_writes [OF assms(2,3)]
  have ok: "fst (save_todos_to_file list filename fs) = Inr 0"
    and "files ?fs' (file_to_use filename) =
      Some (enc_int (of_nat (length (todos list))) @ enc_int (next_id list) @ enc_todos (todos list))"
    by (simp_all add: count_def)
  from load_content [OF this(2) _ assms(5), of fresh] assms(4)
  have l: "load_todos_from_file fresh filename ?fs' =
      (Inr 0, fresh\<lparr>todos := todos list, next_id := next_id list\<rparr>)"
    by (simp add: count_def)
  from assms(1) have "capacity fresh = MAX_TODOS"
    by (auto simp: todo_list_create_def split: if_splits)
  then have "fresh\<lparr>todos := todos list, next_id := next_id list\<rparr> = list"
    if "capacity list = MAX_TODOS"
    using that by (cases fresh; cases list) simp
  then show ?thesis
    by (simp add: l ok count_def)
qed

theorem save_load_round_trip_witness:
  "load_todos_from_file \<lparr>todos = [], capacity = MAX_TODOS, next_id = 1\<rparr> None
     (snd (save_todos_to_file
        \<lparr>todos = [\<lparr>todo_id = 2, title = ''Call dentist'', description = ''Follow-up'',
                    priority = 3, status = 1, created_at = 1758450000, updated_at = 1758453600\<rparr>,
                  \<lparr>todo_id = 3, title = ''Pay rent'', description = [],
                    priority = 1, status = 0, created_at = 1758460000, updated_at = 1758460000\<rparr>],
         capacity = MAX_TODOS, next_id = 4\<rparr>
        None
        \<lparr>files = (\<lambda>p. if p = ''data/todos.dat'' then Some [7, 7] else None),
         can_write = (\<lambda>p. True), quota = 1000000, bufsiz = 4096\<rparr>))
   = (Inr 0,
      \<lparr>todos = [\<lparr>todo_id = 2, title = ''Call dentist'', description = ''Follow-up'',
                  priority = 3, status = 1, created_at = 1758450000, updated_at = 1758453600\<rparr>,
                \<lparr>todo_id = 3, title = ''Pay rent'', description = [],
                  priority = 1, status = 0, created_at = 1758460000, updated_at = 1758460000\<rparr>],
       capacity = MAX_TODOS, next_id = 4\<rparr>)"
proof -
  let ?list = "\<lparr>todos = [\<lparr>todo_id = 2, title = ''Call dentist'', description = ''Follow-up'',
                    priority = 3, status = 1, created_at = 1758450000, updated_at = 1758453600\<rparr>,
                  \<lparr>todo_id = 3, title = ''Pay rent'', description = [],
                    priority = 1, status = 0, created_at = 1758460000, updated_at = 1758460000\<rparr>],
         capacity = MAX_TODOS, next_id = (4::c_int)\<rparr>"
  let ?fs = "\<lparr>files = (\<lambda>p. if p = ''data/todos.dat'' then Some [7, 7 :: byte] else None),
         can_write = (\<lambda>p. True), quota = 1000000, bufsiz = 4096\<rparr>"
  let ?fresh = "\<lparr>todos = [], capacity = MAX_TODOS, next_id = (1::c_int)\<rparr>"
  have start: "todo_list_create True True = Inr ?fresh"
    by (simp add: todo_list_create_def)
  have opens: "can_write ?fs (file_to_use None)"
    by simp
  have room: "8 + sizeof_Todo * count ?list \<le> quota ?fs"
    by (simp add: count_def sizeof_Todo_def)
  have small: "count ?list \<le> MAX_TODOS"
    by (simp add: count_def MAX_TODOS_def)
  have fits: "\<forall>t \<in> set (todos ?list). fits_layout t"
    by (simp add: fits_layout_def MAX_TITLE_LENGTH_def MAX_DESC_LENGTH_def)
  from save_load_round_trip [OF start opens room small fits] show ?thesis
    by (simp add: prod_eq_iff)
qed

text \<open>
  C9: when the file to use cannot be opened for reading (it does not exist), the
  load returns 0 and leaves the list as it is; for the list fresh from
  \<open>todo_list_create\<close> this is the empty list with count 0 and next ID 1.
\<close>

theorem load_missing_file:
  assumes "todo_list_create malloc_list malloc_todos = Inr fresh"
    and "files fs (file_to_use filename) = None"
  shows "load_todos_from_file fresh filename fs = (Inr 0, fresh) \<and>
         c_ret (fst (load_todos_from_file fresh filename fs)) = 0 \<and>
         todos fresh = [] \<and> count fresh = 0 \<and> next_id fresh = 1"
proof -
  from assms(2) have "\<not> file_exists fs (Some (file_to_use filename))"
    by (simp add: file_exists_def)
  then have "load_todos_from_file fresh filename fs = (Inr 0, fresh)"
    by (simp add: load_todos_from_file_def)
  moreover from assms(1) have "fresh = \<lparr>todos = [], capacity = MAX_TODOS, next_id = 1\<rparr>"
    by (auto simp: todo_list_create_def split: if_splits)
  ultimately show ?thesis
    by (simp add: count_def c_ret_def)
qed

theorem load_missing_file_witness:
  "todo_list_create True True = Inr \<lparr>todos = [], capacity = MAX_TODOS, next_id = 1\<rparr> \<and>
   load_todos_from_file \<lparr>todos = [], capacity = MAX_TODOS, next_id = 1\<rparr> (Some ''no/such.dat'')
     \<lparr>files = (\<lambda>p. None), can_write = (\<lambda>p. True), quota = 1000000, bufsiz = 4096\<rparr>
   = (Inr 0, \<lparr>todos = [], capacity = MAX_TODOS, next_id = 1\<rparr>) \<and>
   count \<lparr>todos = [], capacity = MAX_TODOS, next_id = 1\<rparr> = 0"
proof -
  have start: "todo_list_create True True = Inr \<lparr>todos = [], capacity = MAX_TODOS, next_id = 1\<rparr>"
    by (simp add: todo_list_create_def)
  have missing: "files \<lparr>files = (\<lambda>p. None), can_write = (\<lambda>p. True), quota = 1000000, bufsiz = 4096\<rparr>
      (file_to_use (Some ''no/such.dat'')) = None"
    by simp
  from load_missing_file [OF start missing] start show ?thesis
    by simp
qed

end
